theory Spec2Isabelle
  imports Complex_Main "HOL-Library.Multiset"
begin

section \<open>kd3: a balanced 3-D k-d tree with box range search\<close>

text \<open>
  A shallow embedding of \<^verbatim>\<open>kd3/kdtree.c\<close> and \<^verbatim>\<open>kd3/kdtree.h\<close>.

  \<^item> A C struct is a record. Record fields are global names in HOL, so every field
    carries a short prefix naming its struct (\<open>p_\<close> for \<^verbatim>\<open>struct data_point\<close>,
    \<open>n_\<close> for \<^verbatim>\<open>struct tree_node\<close>, \<open>b_\<close> for \<^verbatim>\<open>struct boundaries\<close>,
    \<open>t_\<close> for \<^verbatim>\<open>kdtree\<close>, \<open>i_\<close> for \<^verbatim>\<open>kdtree_iterator\<close>).
  \<^item> A \<^verbatim>\<open>struct tree_node *\<close> is an index into the node arena, \<open>None\<close> for NULL.
  \<^item> \<^verbatim>\<open>size_t\<close> is \<open>nat\<close>. The caller's arrays hold \<open>count\<close> doubles, so
    \<open>count\<close> is far below \<^verbatim>\<open>SIZE_MAX / 2\<close> and none of the index computations
    of the source wraps; the one subtraction that could (\<^verbatim>\<open>idx_to - idx_from\<close>) is
    guarded in the model.
  \<^item> A failed \<^verbatim>\<open>assert\<close>, a NULL dereference and an access outside an allocation
    are values of type \<open>error\<close>.
  \<^item> The static internal routines lose their leading underscore.
\<close>

subsection \<open>Doubles\<close>

text \<open>
  The source compares doubles and never rounds them, except for the six bounds
  computed by \<^verbatim>\<open>kdtree_search\<close>. A double is modelled by its value: a real number or
  one of the two infinities, ordered as IEEE 754 orders them. NaN is left out: a
  comparison with NaN is not an order, and the contract of \<^verbatim>\<open>qsort\<close> does not cover
  such a comparison function.
\<close>

datatype double = MInf | Fin real | PInf

instantiation double :: "{linorder, uminus}"
begin

fun less_eq_double :: "double \<Rightarrow> double \<Rightarrow> bool" where
  "less_eq_double MInf b = True"
| "less_eq_double (Fin a) MInf = False"
| "less_eq_double (Fin a) (Fin b) = (a \<le> b)"
| "less_eq_double (Fin a) PInf = True"
| "less_eq_double PInf MInf = False"
| "less_eq_double PInf (Fin b) = False"
| "less_eq_double PInf PInf = True"

definition less_double :: "double \<Rightarrow> double \<Rightarrow> bool" where
  "less_double a b \<longleftrightarrow> a \<le> b \<and> \<not> b \<le> a"

fun uminus_double :: "double \<Rightarrow> double" where
  "uminus_double MInf = PInf"
| "uminus_double (Fin a) = Fin (- a)"
| "uminus_double PInf = MInf"

instance
proof
  fix a b c :: double
  show "(a < b) = (a \<le> b \<and> \<not> b \<le> a)"
    by (simp add: less_double_def)
  show "a \<le> a"
    by (cases a) simp_all
  show "a \<le> b \<Longrightarrow> b \<le> c \<Longrightarrow> a \<le> c"
    by (cases a; cases b; cases c) simp_all
  show "a \<le> b \<Longrightarrow> b \<le> a \<Longrightarrow> a = b"
    by (cases a; cases b) simp_all
  show "a \<le> b \<or> b \<le> a"
    by (cases a; cases b) auto
qed

end

text \<open>\<^verbatim>\<open>DBL_MAX\<close> of \<^verbatim>\<open>float.h\<close>: the largest finite IEEE 754 binary64 value.\<close>

definition DBL_MAX :: double where
  "DBL_MAX = Fin ((2 ^ 53 - 1) * 2 ^ 971)"

text \<open>A finite double lies between \<open>- DBL_MAX\<close> and \<open>DBL_MAX\<close>.\<close>

definition finite_double :: "double \<Rightarrow> bool" where
  "finite_double d \<longleftrightarrow> - DBL_MAX \<le> d \<and> d \<le> DBL_MAX"

subsection \<open>The data model of kdtree.h\<close>

datatype error = Assertion_failed | Null_dereference | Out_of_bounds

text \<open>\<^verbatim>\<open>KDTREE_END\<close> is \<^verbatim>\<open>SIZE_MAX\<close>, here of a 64-bit \<^verbatim>\<open>size_t\<close>.\<close>

definition SIZE_MAX :: nat where
  "SIZE_MAX = 2 ^ 64 - 1"

definition KDTREE_END :: nat where
  "KDTREE_END = SIZE_MAX"

definition KDTREE_ITERATOR_INITIAL_SIZE :: nat where
  "KDTREE_ITERATOR_INITIAL_SIZE = 50"

definition KDTREE_ITERATOR_GROWTH_RATIO :: nat where
  "KDTREE_ITERATOR_GROWTH_RATIO = 2"

record data_point =
  p_x :: double
  p_y :: double
  p_z :: double
  p_idx :: nat

record tree_node =
  n_left :: "nat option"
  n_right :: "nat option"
  n_split :: double
  n_idx :: nat

record boundaries =
  b_min :: double
  b_max :: double

record space =
  s_dim :: "boundaries list"

record kdtree =
  t_count :: nat
  t_max_nodes :: nat
  t_next_node :: nat
  t_points :: "data_point list"
  t_node_data :: "tree_node list"
  t_root :: "nat option"

record kdtree_iterator =
  i_data :: "nat list"
  i_capacity :: nat
  i_size :: nat
  i_current :: nat

text \<open>
  \<^verbatim>\<open>malloc\<close> and \<^verbatim>\<open>realloc\<close> return storage whose contents are not specified. The
  model takes those contents as a parameter \<open>u\<close>: slot \<open>k\<close> of a fresh block holds
  \<open>u_point u k\<close>, \<open>u_node u k\<close> or \<open>u_index u k\<close>, and the two fields of a fresh
  \<^verbatim>\<open>kdtree\<close> that \<^verbatim>\<open>kdtree_build\<close> does not initialise at once hold \<open>u_cursor u\<close>
  and \<open>u_pointer u\<close>. Every theorem holds for every \<open>u\<close>. Allocation itself is
  assumed to succeed (the source asserts it for the tree and the iterator).
\<close>

record uninit =
  u_point :: "nat \<Rightarrow> data_point"
  u_node :: "nat \<Rightarrow> tree_node"
  u_index :: "nat \<Rightarrow> nat"
  u_cursor :: nat
  u_pointer :: "nat option"

definition malloc_points :: "uninit \<Rightarrow> nat \<Rightarrow> data_point list" where
  "malloc_points u n = map (u_point u) [0..<n]"

definition malloc_nodes :: "uninit \<Rightarrow> nat \<Rightarrow> tree_node list" where
  "malloc_nodes u n = map (u_node u) [0..<n]"

definition malloc_indices :: "uninit \<Rightarrow> nat \<Rightarrow> nat list" where
  "malloc_indices u n = map (u_index u) [0..<n]"

text \<open>\<^verbatim>\<open>realloc(data, n)\<close>: the old contents up to \<open>n\<close> slots, then unspecified ones.\<close>

definition realloc_indices :: "uninit \<Rightarrow> nat list \<Rightarrow> nat \<Rightarrow> nat list" where
  "realloc_indices u data n = take n data @ map (u_index u) [length data..<n]"

subsection \<open>The result iterator\<close>

definition iterator_new :: "uninit \<Rightarrow> kdtree_iterator" where
  "iterator_new u =
     \<lparr>i_data = malloc_indices u KDTREE_ITERATOR_INITIAL_SIZE,
      i_capacity = KDTREE_ITERATOR_INITIAL_SIZE,
      i_size = 0,
      i_current = 0\<rparr>"

definition iterator_reset :: "kdtree_iterator \<Rightarrow> kdtree_iterator" where
  "iterator_reset iter = iter\<lparr>i_size := 0, i_current := 0\<rparr>"

text \<open>
  \<^verbatim>\<open>_iterator_push\<close>. Its assertion \<^verbatim>\<open>KDTREE_ITERATOR_GROWTH_RATIO > 1.0\<close> compares a
  constant and cannot fail (lemma \<open>growth_ratio_gt_1\<close>).
\<close>

definition iterator_push :: "uninit \<Rightarrow> kdtree_iterator \<Rightarrow> nat \<Rightarrow> kdtree_iterator" where
  "iterator_push u iter v =
     (let iter1 =
        (if i_size iter = i_capacity iter
         then iter\<lparr>i_capacity := i_capacity iter * KDTREE_ITERATOR_GROWTH_RATIO,
                   i_data := realloc_indices u (i_data iter)
                               (i_capacity iter * KDTREE_ITERATOR_GROWTH_RATIO)\<rparr>
         else iter)
      in iter1\<lparr>i_data := (i_data iter1)[i_size iter1 := v],
               i_size := i_size iter1 + 1\<rparr>)"

text \<open>
  \<^verbatim>\<open>kdtree_iterator_get_next\<close> returns a value and moves the cursor; the model returns
  the value with the iterator. A cursor outside the buffer is an access outside the
  allocation.
\<close>

definition kdtree_iterator_get_next :: "kdtree_iterator \<Rightarrow> error + nat \<times> kdtree_iterator" where
  "kdtree_iterator_get_next iter =
     (if i_current iter = i_size iter then Inr (KDTREE_END, iter)
      else if \<not> i_current iter < length (i_data iter) then Inl Out_of_bounds
      else Inr (i_data iter ! i_current iter, iter\<lparr>i_current := i_current iter + 1\<rparr>))"

definition kdtree_iterator_rewind :: "kdtree_iterator \<Rightarrow> kdtree_iterator" where
  "kdtree_iterator_rewind iter = iter\<lparr>i_current := 0\<rparr>"

text \<open>
  Calling \<^verbatim>\<open>kdtree_iterator_get_next\<close> \<open>k\<close> times in a row: the values returned, in
  order, and the iterator left behind.
\<close>

fun get_next_times :: "nat \<Rightarrow> kdtree_iterator \<Rightarrow> error + nat list \<times> kdtree_iterator" where
  "get_next_times 0 iter = Inr ([], iter)"
| "get_next_times (Suc k) iter =
     (case kdtree_iterator_get_next iter of
        Inl e \<Rightarrow> Inl e
      | Inr (v, iter1) \<Rightarrow>
          (case get_next_times k iter1 of
             Inl e \<Rightarrow> Inl e
           | Inr (vs, iter2) \<Rightarrow> Inr (v # vs, iter2)))"

text \<open>The results an iterator holds: the first \<open>i_size\<close> slots of its buffer.\<close>

definition contents :: "kdtree_iterator \<Rightarrow> nat list" where
  "contents iter = take (i_size iter) (i_data iter)"

text \<open>
  What every iterator made by \<open>iterator_new\<close> and filled by \<open>iterator_push\<close> satisfies:
  the buffer has \<open>i_capacity\<close> slots, of which \<open>i_size\<close> are used, and the cursor is
  within the used part.
\<close>

definition iterator_ok :: "kdtree_iterator \<Rightarrow> bool" where
  "iterator_ok iter \<longleftrightarrow>
     length (i_data iter) = i_capacity iter \<and> 0 < i_capacity iter \<and>
     i_size iter \<le> i_capacity iter \<and> i_current iter \<le> i_size iter"

subsection \<open>Comparison routines and the sort\<close>

definition CMP :: "'a::linorder \<Rightarrow> 'a \<Rightarrow> int" where
  "CMP v1 v2 = (if v1 > v2 then 1 else if v1 < v2 then - 1 else 0)"

definition cmp_x :: "data_point \<Rightarrow> data_point \<Rightarrow> int" where
  "cmp_x A1 A2 = CMP (p_x A1) (p_x A2)"

definition cmp_y :: "data_point \<Rightarrow> data_point \<Rightarrow> int" where
  "cmp_y A1 A2 = CMP (p_y A1) (p_y A2)"

definition cmp_z :: "data_point \<Rightarrow> data_point \<Rightarrow> int" where
  "cmp_z A1 A2 = CMP (p_z A1) (p_z A2)"

type_synonym cmp_func = "data_point \<Rightarrow> data_point \<Rightarrow> int"

definition func_select :: "cmp_func list" where
  "func_select = [cmp_x, cmp_y, cmp_z]"

definition NDIMS :: nat where
  "NDIMS = 3"

text \<open>
  \<^verbatim>\<open>qsort\<close> belongs to the C library, not to the repository. It is a parameter \<open>qs\<close> of
  the model: \<open>qs cmp xs\<close> is the array \<open>xs\<close> after \<^verbatim>\<open>qsort(xs, length xs, _, cmp)\<close>.
  Its contract, for the three comparison routines the builder passes: the result is a
  permutation of the array, in ascending order of \<open>cmp\<close>. The order among elements that
  compare equal is left open, as in C.
\<close>

type_synonym qsort_fn = "cmp_func \<Rightarrow> data_point list \<Rightarrow> data_point list"

definition qsort_ok :: "qsort_fn \<Rightarrow> bool" where
  "qsort_ok qs \<longleftrightarrow>
     (\<forall>cmp \<in> set func_select. \<forall>xs.
        mset (qs cmp xs) = mset xs \<and> sorted_wrt (\<lambda>a b. cmp a b \<le> 0) (qs cmp xs))"

text \<open>\<^verbatim>\<open>qsort(points + base, n, _, cmp)\<close>: the sort of \<open>n\<close> slots from \<open>base\<close> on, in place.\<close>

definition qsort_range :: "qsort_fn \<Rightarrow> cmp_func \<Rightarrow> nat \<Rightarrow> nat \<Rightarrow> data_point list \<Rightarrow> data_point list" where
  "qsort_range qs cmp base n points =
     take base points @ qs cmp (take n (drop base points)) @ drop (base + n) points"

text \<open>One sort that meets the contract, for evaluating the model: insertion sort.\<close>

fun insert_by :: "('a \<Rightarrow> 'a \<Rightarrow> int) \<Rightarrow> 'a \<Rightarrow> 'a list \<Rightarrow> 'a list" where
  "insert_by cmp a [] = [a]"
| "insert_by cmp a (b # bs) = (if cmp a b \<le> 0 then a # b # bs else b # insert_by cmp a bs)"

fun insertion_sort :: "('a \<Rightarrow> 'a \<Rightarrow> int) \<Rightarrow> 'a list \<Rightarrow> 'a list" where
  "insertion_sort cmp [] = []"
| "insertion_sort cmp (a # as) = insert_by cmp a (insertion_sort cmp as)"

subsection \<open>The node arena and the builder\<close>

definition next_node :: "kdtree \<Rightarrow> error + nat \<times> kdtree" where
  "next_node tree =
     (if \<not> t_next_node tree < t_max_nodes tree then Inl Assertion_failed
      else if \<not> t_next_node tree < length (t_node_data tree) then Inl Out_of_bounds
      else Inr (t_next_node tree, tree\<lparr>t_next_node := t_next_node tree + 1\<rparr>))"

text \<open>A write through a node pointer: \<^verbatim>\<open>node->field = ...\<close>.\<close>

definition node_update :: "nat \<Rightarrow> (tree_node \<Rightarrow> tree_node) \<Rightarrow> kdtree \<Rightarrow> kdtree" where
  "node_update node f tree =
     tree\<lparr>t_node_data := (t_node_data tree)[node := f (t_node_data tree ! node)]\<rparr>"

definition get_branch_node :: "kdtree \<Rightarrow> double \<Rightarrow> error + nat \<times> kdtree" where
  "get_branch_node tree split =
     (case next_node tree of
        Inl e \<Rightarrow> Inl e
      | Inr (node, tree1) \<Rightarrow> Inr (node, node_update node (\<lambda>n. n\<lparr>n_split := split\<rparr>) tree1))"

definition get_leaf_node :: "kdtree \<Rightarrow> nat \<Rightarrow> error + nat \<times> kdtree" where
  "get_leaf_node tree offset =
     (case next_node tree of
        Inl e \<Rightarrow> Inl e
      | Inr (node, tree1) \<Rightarrow>
          Inr (node,
               node_update node (\<lambda>n. n\<lparr>n_left := None, n_right := None, n_idx := offset\<rparr>) tree1))"

definition is_leaf_node :: "tree_node \<Rightarrow> bool" where
  "is_leaf_node node \<longleftrightarrow> n_left node = None \<and> n_right node = None"

text \<open>The coordinate of a point on an axis, as \<^verbatim>\<open>_build_kdtree\<close> selects the split.\<close>

definition coord :: "nat \<Rightarrow> data_point \<Rightarrow> double" where
  "coord axis point = (if axis = 0 then p_x point else if axis = 1 then p_y point else p_z point)"

text \<open>
  \<^verbatim>\<open>_build_kdtree\<close> returns the node it built and leaves the tree changed: the model
  returns both. With \<open>idx_to < idx_from\<close> the unsigned \<^verbatim>\<open>idx_to - idx_from\<close> of the
  source wraps around and the accesses that follow leave the point cache; the model
  stops there. \<^verbatim>\<open>kdtree_build\<close> never makes such a call.
\<close>

function build_kdtree :: "qsort_fn \<Rightarrow> nat \<Rightarrow> nat \<Rightarrow> nat \<Rightarrow> kdtree \<Rightarrow> error + nat \<times> kdtree" where
  "build_kdtree qs idx_from idx_to depth tree =
     (let cnt = idx_to - idx_from + 1;
          mid = idx_from + ((idx_to - idx_from) div 2);
          axis = depth mod NDIMS
      in if idx_to < idx_from then Inl Out_of_bounds
         else if cnt = 1 then get_leaf_node tree idx_from
         else if \<not> idx_to < length (t_points tree) then Inl Out_of_bounds
         else
           let tree1 = tree\<lparr>t_points :=
                         qsort_range qs (func_select ! axis) idx_from cnt (t_points tree)\<rparr>;
               point = t_points tree1 ! mid;
               split = coord axis point
           in case get_branch_node tree1 split of
                Inl e \<Rightarrow> Inl e
              | Inr (node, tree2) \<Rightarrow>
                  (case build_kdtree qs idx_from mid (depth + 1) tree2 of
                     Inl e \<Rightarrow> Inl e
                   | Inr (l, tree3) \<Rightarrow>
                       (case build_kdtree qs (mid + 1) idx_to (depth + 1)
                               (node_update node (\<lambda>n. n\<lparr>n_left := Some l\<rparr>) tree3) of
                          Inl e \<Rightarrow> Inl e
                        | Inr (r, tree4) \<Rightarrow>
                            Inr (node, node_update node (\<lambda>n. n\<lparr>n_right := Some r\<rparr>) tree4))))"
  by pat_completeness auto
termination
  by (relation "measure (\<lambda>(qs, idx_from, idx_to, depth, tree). idx_to - idx_from)") auto

declare build_kdtree.simps [simp del]

text \<open>The loop of \<^verbatim>\<open>kdtree_build\<close> that copies the coordinates into the point cache.\<close>

function cache_points ::
    "double list \<Rightarrow> double list \<Rightarrow> double list \<Rightarrow> nat \<Rightarrow> nat \<Rightarrow> data_point list \<Rightarrow>
     error + data_point list" where
  "cache_points x y z cnt i points =
     (if i < cnt then
        (if \<not> (i < length points \<and> i < length x \<and> i < length y \<and> i < length z)
         then Inl Out_of_bounds
         else cache_points x y z cnt (i + 1)
                (points[i := \<lparr>p_x = x ! i, p_y = y ! i, p_z = z ! i, p_idx = i\<rparr>]))
      else Inr points)"
  by pat_completeness auto
termination
  by (relation "measure (\<lambda>(x, y, z, cnt, i, points). cnt - i)") auto

declare cache_points.simps [simp del]

text \<open>\<^verbatim>\<open>kdtree_delete\<close> frees the tree and sets the handle to NULL.\<close>

definition kdtree_delete :: "kdtree option \<Rightarrow> kdtree option" where
  "kdtree_delete tree_ptr = None"

text \<open>The tree \<^verbatim>\<open>kdtree_build\<close> allocates and initialises for \<open>cnt\<close> points.\<close>

definition new_tree :: "uninit \<Rightarrow> nat \<Rightarrow> kdtree" where
  "new_tree u cnt =
     \<lparr>t_count = cnt,
      t_max_nodes = ((cnt - 1) * 2) + 1,
      t_next_node = u_cursor u,
      t_points = malloc_points u cnt,
      t_node_data = malloc_nodes u (((cnt - 1) * 2) + 1),
      t_root = u_pointer u\<rparr>"

text \<open>
  \<^verbatim>\<open>kdtree_build\<close> writes the handle through \<^verbatim>\<open>tree_ptr\<close>; the model returns the tree
  the handle refers to afterwards.
\<close>

definition kdtree_build ::
    "qsort_fn \<Rightarrow> uninit \<Rightarrow> double list \<Rightarrow> double list \<Rightarrow> double list \<Rightarrow> nat \<Rightarrow> kdtree option \<Rightarrow>
     error + kdtree" where
  "kdtree_build qs u x y z cnt tree_ptr =
     (if \<not> cnt > 1 then Inl Assertion_failed
      else
        let tree =
              (case tree_ptr of
                 None \<Rightarrow> new_tree u cnt
               | Some tree0 \<Rightarrow> if t_count tree0 \<noteq> cnt then new_tree u cnt else tree0);
            tree1 = tree\<lparr>t_next_node := 0\<rparr>
        in case cache_points x y z cnt 0 (t_points tree1) of
             Inl e \<Rightarrow> Inl e
           | Inr points \<Rightarrow>
               (case build_kdtree qs 0 (cnt - 1) 0 (tree1\<lparr>t_points := points\<rparr>) of
                  Inl e \<Rightarrow> Inl e
                | Inr (node, tree2) \<Rightarrow> Inr (tree2\<lparr>t_root := Some node\<rparr>)))"

subsection \<open>The range search\<close>

definition point_in_search_space :: "data_point \<Rightarrow> space \<Rightarrow> bool" where
  "point_in_search_space point search_space \<longleftrightarrow>
     p_x point \<le> b_max (s_dim search_space ! 0) \<and>
     p_x point \<ge> b_min (s_dim search_space ! 0) \<and>
     p_y point \<le> b_max (s_dim search_space ! 1) \<and>
     p_y point \<ge> b_min (s_dim search_space ! 1) \<and>
     p_z point \<le> b_max (s_dim search_space ! 2) \<and>
     p_z point \<ge> b_min (s_dim search_space ! 2)"

definition completely_enclosed :: "space \<Rightarrow> space \<Rightarrow> bool" where
  "completely_enclosed search_space domain \<longleftrightarrow>
     b_min (s_dim domain ! 0) \<le> b_max (s_dim search_space ! 0) \<and>
     b_min (s_dim domain ! 0) \<ge> b_min (s_dim search_space ! 0) \<and>
     b_max (s_dim domain ! 0) \<le> b_max (s_dim search_space ! 0) \<and>
     b_max (s_dim domain ! 0) \<ge> b_min (s_dim search_space ! 0) \<and>
     b_min (s_dim domain ! 1) \<le> b_max (s_dim search_space ! 1) \<and>
     b_min (s_dim domain ! 1) \<ge> b_min (s_dim search_space ! 1) \<and>
     b_max (s_dim domain ! 1) \<le> b_max (s_dim search_space ! 1) \<and>
     b_max (s_dim domain ! 1) \<ge> b_min (s_dim search_space ! 1) \<and>
     b_min (s_dim domain ! 2) \<le> b_max (s_dim search_space ! 2) \<and>
     b_min (s_dim domain ! 2) \<ge> b_min (s_dim search_space ! 2) \<and>
     b_max (s_dim domain ! 2) \<le> b_max (s_dim search_space ! 2) \<and>
     b_max (s_dim domain ! 2) \<ge> b_min (s_dim search_space ! 2)"

definition search_area_intersects :: "space \<Rightarrow> space \<Rightarrow> bool" where
  "search_area_intersects search_space domain \<longleftrightarrow>
     \<not> (b_min (s_dim search_space ! 0) > b_max (s_dim domain ! 0) \<or>
        b_max (s_dim search_space ! 0) < b_min (s_dim domain ! 0) \<or>
        b_min (s_dim search_space ! 1) > b_max (s_dim domain ! 1) \<or>
        b_max (s_dim search_space ! 1) < b_min (s_dim domain ! 1) \<or>
        b_min (s_dim search_space ! 2) > b_max (s_dim domain ! 2) \<or>
        b_max (s_dim search_space ! 2) < b_min (s_dim domain ! 2))"

text \<open>
  The recursive traversals follow node pointers, so on an arena whose pointers form a
  cycle they do not return: they are partial functions, \<open>None\<close> when the traversal does
  not terminate, \<open>Some (Inl e)\<close> when it stops at an error, \<open>Some (Inr iter)\<close> when it
  returns with the iterator \<open>iter\<close>.
\<close>

partial_function (option) report_all_leaves ::
    "uninit \<Rightarrow> kdtree \<Rightarrow> nat option \<Rightarrow> kdtree_iterator \<Rightarrow> (error + kdtree_iterator) option" where
  "report_all_leaves u tree node iter =
     (case node of
        None \<Rightarrow> Some (Inl Null_dereference)
      | Some p \<Rightarrow>
          if \<not> p < length (t_node_data tree) then Some (Inl Out_of_bounds)
          else if is_leaf_node (t_node_data tree ! p) then
            (if \<not> n_idx (t_node_data tree ! p) < length (t_points tree)
             then Some (Inl Out_of_bounds)
             else Some (Inr (iterator_push u iter
                               (p_idx (t_points tree ! n_idx (t_node_data tree ! p))))))
          else
            Option.bind (report_all_leaves u tree (n_left (t_node_data tree ! p)) iter)
              (\<lambda>r. case r of
                 Inl e \<Rightarrow> Some (Inl e)
               | Inr iter1 \<Rightarrow> report_all_leaves u tree (n_right (t_node_data tree ! p)) iter1))"

declare report_all_leaves.simps [code]

text \<open>
  \<^verbatim>\<open>_explore_branch\<close> and \<^verbatim>\<open>_search_kdtree\<close> call each other. \<open>explore_branch\<close> takes
  the function it calls back as its first argument \<open>search\<close>; \<open>search_kdtree\<close> passes
  itself.
\<close>

definition explore_branch ::
    "(nat option \<Rightarrow> nat \<Rightarrow> space \<Rightarrow> kdtree_iterator \<Rightarrow> (error + kdtree_iterator) option) \<Rightarrow>
     uninit \<Rightarrow> kdtree \<Rightarrow> nat option \<Rightarrow> nat \<Rightarrow> space \<Rightarrow> space \<Rightarrow> kdtree_iterator \<Rightarrow>
     (error + kdtree_iterator) option" where
  "explore_branch search u tree node depth search_space domain iter =
     (case node of
        None \<Rightarrow> Some (Inl Null_dereference)
      | Some p \<Rightarrow>
          if \<not> p < length (t_node_data tree) then Some (Inl Out_of_bounds)
          else if is_leaf_node (t_node_data tree ! p) then
            (if \<not> n_idx (t_node_data tree ! p) < length (t_points tree)
             then Some (Inl Out_of_bounds)
             else if point_in_search_space (t_points tree ! n_idx (t_node_data tree ! p))
                       search_space
             then Some (Inr (iterator_push u iter
                               (p_idx (t_points tree ! n_idx (t_node_data tree ! p)))))
             else Some (Inr iter))
          else if search_area_intersects search_space domain then
            (if completely_enclosed search_space domain
             then report_all_leaves u tree node iter
             else search node (depth + 1) domain iter)
          else Some (Inr iter))"

lemma explore_branch_mono [partial_function_mono]:
  assumes "\<And>node depth domain iter. mono_option (\<lambda>f. S f node depth domain iter)"
  shows "mono_option (\<lambda>f. explore_branch (S f) u tree node depth search_space domain iter)"
proof (cases node)
  case None
  then show ?thesis
    by (simp add: explore_branch_def partial_function_mono)
next
  case (Some p)
  show ?thesis
    unfolding explore_branch_def Some option.case
    by (intro partial_function_mono assms)
qed

text \<open>\<^verbatim>\<open>sp.dim[axis].max = v\<close> and \<^verbatim>\<open>sp.dim[axis].min = v\<close>.\<close>

definition dim_max_update :: "nat \<Rightarrow> double \<Rightarrow> space \<Rightarrow> space" where
  "dim_max_update axis v sp = sp\<lparr>s_dim := (s_dim sp)[axis := (s_dim sp ! axis)\<lparr>b_max := v\<rparr>]\<rparr>"

definition dim_min_update :: "nat \<Rightarrow> double \<Rightarrow> space \<Rightarrow> space" where
  "dim_min_update axis v sp = sp\<lparr>s_dim := (s_dim sp)[axis := (s_dim sp ! axis)\<lparr>b_min := v\<rparr>]\<rparr>"

text \<open>
  In \<open>search_kdtree\<close>, \<open>new_domain\<close> is the copy \<^verbatim>\<open>memcpy\<close> makes, \<open>new_domain1\<close> what
  the left branch is explored with, and \<open>new_domain3\<close>, after the two assignments of the
  source, what the right branch is explored with.
\<close>

partial_function (option) search_kdtree ::
    "uninit \<Rightarrow> kdtree \<Rightarrow> nat option \<Rightarrow> nat \<Rightarrow> space \<Rightarrow> space \<Rightarrow> kdtree_iterator \<Rightarrow>
     (error + kdtree_iterator) option" where
  "search_kdtree u tree root_node depth search_space domain iter =
     (case root_node of
        None \<Rightarrow> Some (Inl Null_dereference)
      | Some p \<Rightarrow>
          if \<not> p < length (t_node_data tree) then Some (Inl Out_of_bounds)
          else
            let axis = depth mod NDIMS;
                new_domain = domain;
                new_domain1 = dim_max_update axis (n_split (t_node_data tree ! p)) new_domain
            in Option.bind
                 (explore_branch
                    (\<lambda>node depth domain iter.
                        search_kdtree u tree node depth search_space domain iter)
                    u tree (n_left (t_node_data tree ! p)) depth search_space new_domain1 iter)
                 (\<lambda>r. case r of
                    Inl e \<Rightarrow> Some (Inl e)
                  | Inr iter1 \<Rightarrow>
                      let new_domain2 =
                            dim_max_update axis (b_max (s_dim domain ! axis)) new_domain1;
                          new_domain3 =
                            dim_min_update axis (n_split (t_node_data tree ! p)) new_domain2
                      in explore_branch
                           (\<lambda>node depth domain iter.
                               search_kdtree u tree node depth search_space domain iter)
                           u tree (n_right (t_node_data tree ! p)) depth search_space
                           new_domain3 iter1))"

declare search_kdtree.simps [code]

definition initial_domain :: space where
  "initial_domain =
     \<lparr>s_dim = [\<lparr>b_min = - DBL_MAX, b_max = DBL_MAX\<rparr>,
               \<lparr>b_min = - DBL_MAX, b_max = DBL_MAX\<rparr>,
               \<lparr>b_min = - DBL_MAX, b_max = DBL_MAX\<rparr>]\<rparr>"

text \<open>The query box of \<^verbatim>\<open>kdtree_search_space\<close>, from its six bounds.\<close>

definition box :: "double \<Rightarrow> double \<Rightarrow> double \<Rightarrow> double \<Rightarrow> double \<Rightarrow> double \<Rightarrow> space" where
  "box x_min x_max y_min y_max z_min z_max =
     \<lparr>s_dim = [\<lparr>b_min = x_min, b_max = x_max\<rparr>,
               \<lparr>b_min = y_min, b_max = y_max\<rparr>,
               \<lparr>b_min = z_min, b_max = z_max\<rparr>]\<rparr>"

text \<open>
  \<^verbatim>\<open>kdtree_search_space\<close> writes the iterator through \<^verbatim>\<open>iter_ptr\<close>; the model returns
  the iterator the handle refers to afterwards.
\<close>

definition kdtree_search_space ::
    "uninit \<Rightarrow> kdtree option \<Rightarrow> kdtree_iterator option \<Rightarrow>
     double \<Rightarrow> double \<Rightarrow> double \<Rightarrow> double \<Rightarrow> double \<Rightarrow> double \<Rightarrow>
     (error + kdtree_iterator) option" where
  "kdtree_search_space u tree_ptr iter_ptr x_min x_max y_min y_max z_min z_max =
     (case tree_ptr of
        None \<Rightarrow> Some (Inl Assertion_failed)
      | Some tree \<Rightarrow>
          (case t_root tree of
             None \<Rightarrow> Some (Inl Assertion_failed)
           | Some r \<Rightarrow>
               if \<not> r < length (t_node_data tree) then Some (Inl Out_of_bounds)
               else if is_leaf_node (t_node_data tree ! r) then Some (Inl Assertion_failed)
               else
                 let iter = (case iter_ptr of
                               Some iter0 \<Rightarrow> iterator_reset iter0
                             | None \<Rightarrow> iterator_new u);
                     search_space = box x_min x_max y_min y_max z_min z_max;
                     domain = initial_domain
                 in search_kdtree u tree (t_root tree) 0 search_space domain iter))"

text \<open>
  \<^verbatim>\<open>kdtree_search\<close> computes its six bounds in floating point. The subtraction and the
  addition of the platform, rounding included, are the parameters \<open>fsub\<close> and \<open>fadd\<close>.
\<close>

definition kdtree_search ::
    "(double \<Rightarrow> double \<Rightarrow> double) \<Rightarrow> (double \<Rightarrow> double \<Rightarrow> double) \<Rightarrow>
     uninit \<Rightarrow> kdtree option \<Rightarrow> kdtree_iterator option \<Rightarrow>
     double \<Rightarrow> double \<Rightarrow> double \<Rightarrow> double \<Rightarrow> (error + kdtree_iterator) option" where
  "kdtree_search fsub fadd u tree_ptr iter_ptr x y z apothem =
     (if \<not> apothem \<ge> Fin 0 then Some (Inl Assertion_failed)
      else kdtree_search_space u tree_ptr iter_ptr
             (fsub x apothem) (fadd x apothem)
             (fsub y apothem) (fadd y apothem)
             (fsub z apothem) (fadd z apothem))"

section \<open>Specification-level definitions\<close>

subsection \<open>The k-d tree as a value\<close>

text \<open>
  The tree of the specification (section 3: a leaf refers to one point, a branch holds a
  split value and two children), with the point itself at each leaf.
\<close>

datatype ptree = PLeaf data_point | PBranch double ptree ptree

fun p_leaves :: "ptree \<Rightarrow> data_point list" where
  "p_leaves (PLeaf p) = [p]"
| "p_leaves (PBranch s l r) = p_leaves l @ p_leaves r"

fun leaf_count :: "ptree \<Rightarrow> nat" where
  "leaf_count (PLeaf p) = 1"
| "leaf_count (PBranch s l r) = leaf_count l + leaf_count r"

fun branch_count :: "ptree \<Rightarrow> nat" where
  "branch_count (PLeaf p) = 0"
| "branch_count (PBranch s l r) = 1 + branch_count l + branch_count r"

text \<open>The slots \<open>lo\<close> to \<open>hi\<close> of an array, both included.\<close>

definition slice :: "'a list \<Rightarrow> nat \<Rightarrow> nat \<Rightarrow> 'a list" where
  "slice xs lo hi = take (hi - lo + 1) (drop lo xs)"

text \<open>
  \<open>build_subtree\<close> as section 4.2 of the specification words it, on the points of the
  sub-range: one point gives a leaf; otherwise the points are sorted by the coordinate on
  axis \<open>depth mod 3\<close>, the split value is that coordinate of the sorted element at the
  lower median \<open>mid\<close>, and the two children are built from the sorted points up to \<open>mid\<close>
  and after \<open>mid\<close>, one level deeper. The specification leaves the order of ties open, so
  this is a relation: \<open>spec_build_subtree depth points t\<close> holds for every tree \<open>t\<close> the
  specification allows for \<open>points\<close>.
\<close>

inductive spec_build_subtree :: "nat \<Rightarrow> data_point list \<Rightarrow> ptree \<Rightarrow> bool" where
  leaf: "spec_build_subtree depth [p] (PLeaf p)"
| branch:
    "2 \<le> length points \<Longrightarrow> axis = depth mod 3 \<Longrightarrow>
     mset ordered = mset points \<Longrightarrow>
     sorted_wrt (\<lambda>a b. coord axis a \<le> coord axis b) ordered \<Longrightarrow>
     mid = (length points - 1) div 2 \<Longrightarrow>
     spec_build_subtree (depth + 1) (take (mid + 1) ordered) l \<Longrightarrow>
     spec_build_subtree (depth + 1) (drop (mid + 1) ordered) r \<Longrightarrow>
     spec_build_subtree depth points (PBranch (coord axis (ordered ! mid)) l r)"

text \<open>
  What the arena holds. \<open>layout nodes points p cells slots t\<close>: the node at \<open>p\<close> is the
  root of the tree \<open>t\<close>; \<open>cells\<close> lists the arena cells of the nodes of \<open>t\<close>, parents
  before children and left before right; \<open>slots\<close> lists the point cache slots its leaves
  refer to, from left to right.
\<close>

inductive layout ::
    "tree_node list \<Rightarrow> data_point list \<Rightarrow> nat \<Rightarrow> nat list \<Rightarrow> nat list \<Rightarrow> ptree \<Rightarrow> bool" where
  leaf:
    "p < length nodes \<Longrightarrow> is_leaf_node (nodes ! p) \<Longrightarrow> n_idx (nodes ! p) < length points \<Longrightarrow>
     layout nodes points p [p] [n_idx (nodes ! p)] (PLeaf (points ! n_idx (nodes ! p)))"
| branch:
    "p < length nodes \<Longrightarrow> n_left (nodes ! p) = Some l \<Longrightarrow> n_right (nodes ! p) = Some r \<Longrightarrow>
     layout nodes points l cells1 slots1 lt \<Longrightarrow> layout nodes points r cells2 slots2 rt \<Longrightarrow>
     layout nodes points p (p # cells1 @ cells2) (slots1 @ slots2)
       (PBranch (n_split (nodes ! p)) lt rt)"

fun balanced :: "ptree \<Rightarrow> bool" where
  "balanced (PLeaf p) = True"
| "balanced (PBranch s l r) =
     ((leaf_count l = leaf_count r \<or> leaf_count l = leaf_count r + 1) \<and> balanced l \<and> balanced r)"

text \<open>
  The order a median split leaves behind: at a branch of depth \<open>depth\<close>, no point of the
  left subtree lies above the split value on axis \<open>depth mod 3\<close> and no point of the right
  subtree lies below it; the same one level deeper for both children.
\<close>

fun partitioned :: "nat \<Rightarrow> ptree \<Rightarrow> bool" where
  "partitioned depth (PLeaf p) = True"
| "partitioned depth (PBranch s l r) =
     ((\<forall>p \<in> set (p_leaves l). coord (depth mod 3) p \<le> s) \<and>
      (\<forall>p \<in> set (p_leaves r). s \<le> coord (depth mod 3) p) \<and>
      partitioned (depth + 1) l \<and> partitioned (depth + 1) r)"

subsection \<open>What one call of the builder does\<close>

text \<open>
  A call \<open>build_kdtree qs idx_from idx_to depth tree\<close> that returned \<open>(node, tree')\<close>
  and built the tree \<open>t\<close>, for a sub-range of one point: the node is a leaf that refers to
  the slot, and the point cache is as it was.
\<close>

definition leaf_step :: "nat \<Rightarrow> kdtree \<Rightarrow> nat \<Rightarrow> kdtree \<Rightarrow> ptree \<Rightarrow> bool" where
  "leaf_step idx tree node tree' t \<longleftrightarrow>
     is_leaf_node (t_node_data tree' ! node) \<and>
     n_idx (t_node_data tree' ! node) = idx \<and>
     t_points tree' = t_points tree \<and>
     t = PLeaf (t_points tree ! idx)"

text \<open>
  The same for a sub-range of more than one point. With \<open>ordered\<close> the sub-range as
  \<^verbatim>\<open>qsort\<close> leaves it for the comparison routine of axis \<open>depth mod 3\<close>, and \<open>mid\<close> the
  lower median index: the split value of the node is the axis coordinate of the element
  of \<open>ordered\<close> at \<open>mid\<close>; the left child is a tree over the slots \<open>idx_from\<close> to \<open>mid\<close>,
  built one level deeper from the sorted elements up to \<open>mid\<close>; the right child is a
  tree over the slots \<open>mid + 1\<close> to \<open>idx_to\<close>, built one level deeper from the sorted
  elements after \<open>mid\<close>; and the left child has as many leaves as the right one, or one
  more.
\<close>

definition branch_step ::
    "qsort_fn \<Rightarrow> nat \<Rightarrow> nat \<Rightarrow> nat \<Rightarrow> kdtree \<Rightarrow> nat \<Rightarrow> kdtree \<Rightarrow> ptree \<Rightarrow> bool" where
  "branch_step qs idx_from idx_to depth tree node tree' t \<longleftrightarrow>
     (let axis = depth mod 3;
          mid = idx_from + (idx_to - idx_from) div 2;
          ordered = qs (func_select ! axis) (slice (t_points tree) idx_from idx_to);
          nodes' = t_node_data tree';
          points' = t_points tree'
      in n_split (nodes' ! node) = coord axis (ordered ! (mid - idx_from)) \<and>
         (\<exists>l r cells1 cells2 lt rt.
            n_left (nodes' ! node) = Some l \<and> n_right (nodes' ! node) = Some r \<and>
            t = PBranch (n_split (nodes' ! node)) lt rt \<and>
            layout nodes' points' l cells1 [idx_from..<Suc mid] lt \<and>
            layout nodes' points' r cells2 [Suc mid..<Suc idx_to] rt \<and>
            spec_build_subtree (depth + 1) (take (mid - idx_from + 1) ordered) lt \<and>
            spec_build_subtree (depth + 1) (drop (mid - idx_from + 1) ordered) rt \<and>
            (leaf_count lt = leaf_count rt \<or> leaf_count lt = leaf_count rt + 1)))"

text \<open>
  Everything the proofs need about a call that returned: where the cursor stands, what
  the call left alone in the arena and in the point cache, and the tree it built.
\<close>

definition built ::
    "qsort_fn \<Rightarrow> nat \<Rightarrow> nat \<Rightarrow> nat \<Rightarrow> kdtree \<Rightarrow> nat \<Rightarrow> kdtree \<Rightarrow> ptree \<Rightarrow> bool" where
  "built qs idx_from idx_to depth tree node tree' t \<longleftrightarrow>
     node = t_next_node tree \<and>
     t_next_node tree' = t_next_node tree + 2 * (idx_to - idx_from) + 1 \<and>
     t_count tree' = t_count tree \<and> t_max_nodes tree' = t_max_nodes tree \<and>
     t_root tree' = t_root tree \<and>
     length (t_node_data tree') = length (t_node_data tree) \<and>
     length (t_points tree') = length (t_points tree) \<and>
     (\<forall>i. i < t_next_node tree \<or> t_next_node tree' \<le> i \<longrightarrow>
          t_node_data tree' ! i = t_node_data tree ! i) \<and>
     (\<forall>i. i < idx_from \<or> idx_to < i \<longrightarrow> t_points tree' ! i = t_points tree ! i) \<and>
     layout (t_node_data tree') (t_points tree') node
       [t_next_node tree..<t_next_node tree'] [idx_from..<Suc idx_to] t \<and>
     spec_build_subtree depth (slice (t_points tree) idx_from idx_to) t \<and>
     (idx_from = idx_to \<longrightarrow> leaf_step idx_from tree node tree' t) \<and>
     (idx_from < idx_to \<longrightarrow> branch_step qs idx_from idx_to depth tree node tree' t)"

subsection \<open>What kdtree_build is called with and what it returns\<close>

text \<open>The point cache after the copying loop of \<^verbatim>\<open>kdtree_build\<close>.\<close>

definition cached_points :: "double list \<Rightarrow> double list \<Rightarrow> double list \<Rightarrow> nat \<Rightarrow> data_point list" where
  "cached_points x y z cnt =
     map (\<lambda>i. \<lparr>p_x = x ! i, p_y = y ! i, p_z = z ! i, p_idx = i\<rparr>) [0..<cnt]"

text \<open>The caller's arrays hold at least \<open>cnt\<close> doubles each.\<close>

definition arrays_ok :: "nat \<Rightarrow> double list \<Rightarrow> double list \<Rightarrow> double list \<Rightarrow> bool" where
  "arrays_ok cnt x y z \<longleftrightarrow> cnt \<le> length x \<and> cnt \<le> length y \<and> cnt \<le> length z"

text \<open>
  The storage of a tree is as \<^verbatim>\<open>kdtree_build\<close> allocates it: \<open>t_count\<close> points and
  \<open>t_max_nodes = (t_count - 1) * 2 + 1\<close> nodes. A tree handle is NULL or refers to such
  a tree (the type is opaque to callers: a handle comes from \<^verbatim>\<open>kdtree_build\<close>).
\<close>

definition allocated :: "kdtree \<Rightarrow> bool" where
  "allocated tree \<longleftrightarrow>
     length (t_points tree) = t_count tree \<and>
     t_max_nodes tree = ((t_count tree - 1) * 2) + 1 \<and>
     length (t_node_data tree) = t_max_nodes tree"

definition handle_ok :: "kdtree option \<Rightarrow> bool" where
  "handle_ok tree_ptr \<longleftrightarrow> (case tree_ptr of None \<Rightarrow> True | Some tree \<Rightarrow> allocated tree)"

text \<open>The tree the build works on: a fresh one, or the caller's when the count matches.\<close>

definition start_tree :: "uninit \<Rightarrow> nat \<Rightarrow> kdtree option \<Rightarrow> kdtree" where
  "start_tree u cnt tree_ptr =
     (case tree_ptr of
        None \<Rightarrow> new_tree u cnt
      | Some tree0 \<Rightarrow> if t_count tree0 \<noteq> cnt then new_tree u cnt else tree0)"

text \<open>What the tree \<open>tree\<close> that \<open>kdtree_build\<close> returns for \<open>cnt\<close> points satisfies.\<close>

definition build_result ::
    "double list \<Rightarrow> double list \<Rightarrow> double list \<Rightarrow> nat \<Rightarrow> kdtree \<Rightarrow> ptree \<Rightarrow> bool" where
  "build_result x y z cnt tree t \<longleftrightarrow>
     t_count tree = cnt \<and> t_max_nodes tree = 2 * cnt - 1 \<and> t_next_node tree = 2 * cnt - 1 \<and>
     length (t_node_data tree) = 2 * cnt - 1 \<and> length (t_points tree) = cnt \<and>
     t_root tree = Some 0 \<and>
     layout (t_node_data tree) (t_points tree) 0 [0..<2 * cnt - 1] [0..<cnt] t \<and>
     spec_build_subtree 0 (cached_points x y z cnt) t"

subsection \<open>Concrete inputs\<close>

definition example_iterator :: kdtree_iterator where
  "example_iterator = \<lparr>i_data = [3, 0, 7, 9], i_capacity = 4, i_size = 3, i_current = 1\<rparr>"

text \<open>Storage that happens to be zeroed.\<close>

definition zero_mem :: uninit where
  "zero_mem =
     \<lparr>u_point = (\<lambda>k. \<lparr>p_x = Fin 0, p_y = Fin 0, p_z = Fin 0, p_idx = 0\<rparr>),
      u_node = (\<lambda>k. \<lparr>n_left = None, n_right = None, n_split = Fin 0, n_idx = 0\<rparr>),
      u_index = (\<lambda>k. 0),
      u_cursor = 0,
      u_pointer = None\<rparr>"

text \<open>The eleven points of \<^verbatim>\<open>run_test.c\<close>.\<close>

definition test_x :: "double list" where
  "test_x = map Fin [0.5, 0.5, 0.5, 0, 1, 1, 0, 0, 1, 1, 0]"

definition test_y :: "double list" where
  "test_y = map Fin [0.5, 0.5, 0.5, 0, 0, 1, 1, 0, 0, 1, 1]"

definition test_z :: "double list" where
  "test_z = map Fin [0.5, 0.5, 0.5, 0, 0, 0, 0, 1, 1, 1, 1]"

text \<open>
  The tree \<^verbatim>\<open>kdtree_build\<close> hands to the builder for those points: the cache filled,
  the cursor at 0.
\<close>

definition test_tree :: kdtree where
  "test_tree =
     \<lparr>t_count = 11, t_max_nodes = 21, t_next_node = 0,
      t_points = cached_points test_x test_y test_z 11,
      t_node_data = malloc_nodes zero_mem 21,
      t_root = None\<rparr>"

section \<open>The search\<close>

subsection \<open>The search as a function on trees\<close>

text \<open>The iterator after pushing the values \<open>vs\<close>, first to last.\<close>

definition push_all :: "uninit \<Rightarrow> kdtree_iterator \<Rightarrow> nat list \<Rightarrow> kdtree_iterator" where
  "push_all u iter vs = foldl (iterator_push u) iter vs"

text \<open>
  The original indices that \<open>explore_branch\<close> and \<open>search_kdtree\<close> emit, in order, as
  functions of the tree under the node they are called with: the same tests in the same
  order, with the tree in place of the pointers.
\<close>

fun explore_tree :: "space \<Rightarrow> nat \<Rightarrow> space \<Rightarrow> ptree \<Rightarrow> nat list" where
  "explore_tree search_space depth domain (PLeaf p) =
     (if point_in_search_space p search_space then [p_idx p] else [])"
| "explore_tree search_space depth domain (PBranch s l r) =
     (if search_area_intersects search_space domain then
        (if completely_enclosed search_space domain
         then map p_idx (p_leaves (PBranch s l r))
         else
           (let axis = (depth + 1) mod NDIMS;
                new_domain1 = dim_max_update axis s domain;
                new_domain2 = dim_max_update axis (b_max (s_dim domain ! axis)) new_domain1;
                new_domain3 = dim_min_update axis s new_domain2
            in explore_tree search_space (depth + 1) new_domain1 l @
               explore_tree search_space (depth + 1) new_domain3 r))
      else [])"

fun search_tree :: "space \<Rightarrow> nat \<Rightarrow> space \<Rightarrow> ptree \<Rightarrow> nat list" where
  "search_tree search_space depth domain (PLeaf p) = []"
| "search_tree search_space depth domain (PBranch s l r) =
     (let axis = depth mod NDIMS;
          new_domain1 = dim_max_update axis s domain;
          new_domain2 = dim_max_update axis (b_max (s_dim domain ! axis)) new_domain1;
          new_domain3 = dim_min_update axis s new_domain2
      in explore_tree search_space depth new_domain1 l @
         explore_tree search_space depth new_domain3 r)"

text \<open>An iterator handle is NULL or refers to an iterator of an earlier search.\<close>

definition iterator_handle_ok :: "kdtree_iterator option \<Rightarrow> bool" where
  "iterator_handle_ok iter_ptr \<longleftrightarrow>
     (case iter_ptr of None \<Rightarrow> True | Some iter \<Rightarrow> iterator_ok iter)"

text \<open>The iterator a search starts with: the caller's, reset, or a new one.\<close>

definition start_iterator :: "uninit \<Rightarrow> kdtree_iterator option \<Rightarrow> kdtree_iterator" where
  "start_iterator u iter_ptr =
     (case iter_ptr of Some iter0 \<Rightarrow> iterator_reset iter0 | None \<Rightarrow> iterator_new u)"

subsection \<open>Boxes\<close>

text \<open>All coordinates of the first \<open>cnt\<close> points are finite doubles.\<close>

definition finite_points :: "nat \<Rightarrow> double list \<Rightarrow> double list \<Rightarrow> double list \<Rightarrow> bool" where
  "finite_points cnt x y z \<longleftrightarrow>
     (\<forall>i<cnt. finite_double (x ! i) \<and> finite_double (y ! i) \<and> finite_double (z ! i))"

subsection \<open>A search of a tree that kdtree_build returned\<close>

text \<open>The original indices of the points inside the box, bounds included.\<close>

definition box_indices ::
    "nat \<Rightarrow> double list \<Rightarrow> double list \<Rightarrow> double list \<Rightarrow>
     double \<Rightarrow> double \<Rightarrow> double \<Rightarrow> double \<Rightarrow> double \<Rightarrow> double \<Rightarrow> nat set" where
  "box_indices cnt x y z x_min x_max y_min y_max z_min z_max =
     {i. i < cnt \<and> x_min \<le> x ! i \<and> x ! i \<le> x_max \<and>
                  y_min \<le> y ! i \<and> y ! i \<le> y_max \<and>
                  z_min \<le> z ! i \<and> z ! i \<le> z_max}"

section \<open>Box search: what the iterator holds\<close>

text \<open>Three points, the first with an infinite y coordinate.\<close>

definition inf_x :: "double list" where "inf_x = [Fin 0, Fin 1, Fin 2]"

definition inf_y :: "double list" where "inf_y = [PInf, Fin 5, Fin 0]"

definition inf_z :: "double list" where "inf_z = [Fin 0, Fin 0, Fin 0]"

text \<open>The tree \<open>kdtree_build\<close> returns for them (lemma \<open>inf_build\<close>).\<close>

definition inf_tree :: kdtree where
  "inf_tree =
     \<lparr>t_count = 3, t_max_nodes = 5, t_next_node = 5,
      t_points =
        [\<lparr>p_x = Fin 1, p_y = Fin 5, p_z = Fin 0, p_idx = 1\<rparr>,
         \<lparr>p_x = Fin 0, p_y = PInf, p_z = Fin 0, p_idx = 0\<rparr>,
         \<lparr>p_x = Fin 2, p_y = Fin 0, p_z = Fin 0, p_idx = 2\<rparr>],
      t_node_data =
        [\<lparr>n_left = Some 1, n_right = Some 4, n_split = Fin 1, n_idx = 0\<rparr>,
         \<lparr>n_left = Some 2, n_right = Some 3, n_split = Fin 5, n_idx = 0\<rparr>,
         \<lparr>n_left = None, n_right = None, n_split = Fin 0, n_idx = 0\<rparr>,
         \<lparr>n_left = None, n_right = None, n_split = Fin 0, n_idx = 1\<rparr>,
         \<lparr>n_left = None, n_right = None, n_split = Fin 0, n_idx = 2\<rparr>],
      t_root = Some 0\<rparr>"

text \<open>
  The domain that the comment in \<^verbatim>\<open>kdtree_search_space\<close> names (``set initial domain to
  infinite space''); the statements under the comment set \<open>initial_domain\<close>.
\<close>

definition infinite_space :: space where
  "infinite_space = box MInf PInf MInf PInf MInf PInf"

text \<open>
  The tree \<open>kdtree_build\<close> returns for the two points \<open>(0, +\<infinity>, 0)\<close> and \<open>(1, 5, 0)\<close>
  (lemma \<open>pair_build\<close>).
\<close>

definition pair_tree :: kdtree where
  "pair_tree =
     \<lparr>t_count = 2, t_max_nodes = 3, t_next_node = 3,
      t_points =
        [\<lparr>p_x = Fin 0, p_y = PInf, p_z = Fin 0, p_idx = 0\<rparr>,
         \<lparr>p_x = Fin 1, p_y = Fin 5, p_z = Fin 0, p_idx = 1\<rparr>],
      t_node_data =
        [\<lparr>n_left = Some 1, n_right = Some 2, n_split = Fin 0, n_idx = 0\<rparr>,
         \<lparr>n_left = None, n_right = None, n_split = Fin 0, n_idx = 0\<rparr>,
         \<lparr>n_left = None, n_right = None, n_split = Fin 0, n_idx = 1\<rparr>],
      t_root = Some 0\<rparr>"

text \<open>Exact arithmetic on finite doubles, to have one addition and one subtraction at hand.\<close>

fun exact_add :: "double \<Rightarrow> double \<Rightarrow> double" where
  "exact_add (Fin a) (Fin b) = Fin (a + b)"
| "exact_add PInf b = PInf"
| "exact_add MInf b = MInf"
| "exact_add (Fin a) b = b"

fun exact_sub :: "double \<Rightarrow> double \<Rightarrow> double" where
  "exact_sub a b = exact_add a (- b)"

section \<open>Rebuilding in place\<close>

text \<open>The indices a search left in its iterator; \<open>None\<close> if the search did not return one.\<close>

definition search_contents :: "(error + kdtree_iterator) option \<Rightarrow> nat list option" where
  "search_contents r = (case r of Some (Inr iter) \<Rightarrow> Some (contents iter) | _ \<Rightarrow> None)"

text \<open>
  The tree of an earlier build, of the three points \<open>(0, 2, 1)\<close>, \<open>(1, 1, 1)\<close>,
  \<open>(2, 0, 1)\<close> (lemma \<open>old_build\<close>).
\<close>

definition old_tree :: kdtree where
  "old_tree =
     \<lparr>t_count = 3, t_max_nodes = 5, t_next_node = 5,
      t_points =
        [\<lparr>p_x = Fin 1, p_y = Fin 1, p_z = Fin 1, p_idx = 1\<rparr>,
         \<lparr>p_x = Fin 0, p_y = Fin 2, p_z = Fin 1, p_idx = 0\<rparr>,
         \<lparr>p_x = Fin 2, p_y = Fin 0, p_z = Fin 1, p_idx = 2\<rparr>],
      t_node_data =
        [\<lparr>n_left = Some 1, n_right = Some 4, n_split = Fin 1, n_idx = 0\<rparr>,
         \<lparr>n_left = Some 2, n_right = Some 3, n_split = Fin 1, n_idx = 0\<rparr>,
         \<lparr>n_left = None, n_right = None, n_split = Fin 0, n_idx = 0\<rparr>,
         \<lparr>n_left = None, n_right = None, n_split = Fin 0, n_idx = 1\<rparr>,
         \<lparr>n_left = None, n_right = None, n_split = Fin 0, n_idx = 2\<rparr>],
      t_root = Some 0\<rparr>"

section \<open>The domains of a search\<close>

text \<open>
  The calls a search of \<open>tree\<close> with the box \<open>search_space\<close> can make, each with the
  node, the depth and the domain it is passed.
  \<^item> \<^verbatim>\<open>kdtree_search_space\<close> calls \<^verbatim>\<open>_search_kdtree\<close> on the root at depth 0 with the
    initial domain (once its assertions on the root have passed).
  \<^item> \<^verbatim>\<open>_search_kdtree\<close> calls \<^verbatim>\<open>_explore_branch\<close> on the left child with the maximum of
    the axis set to the split value, then on the right child, where the maximum is reset
    and the minimum set to the split value.
  \<^item> \<^verbatim>\<open>_explore_branch\<close> calls \<^verbatim>\<open>_search_kdtree\<close> one level deeper, with the domain it
    was given, on a branch node whose domain intersects the box and is not enclosed by it.
\<close>

inductive search_called :: "kdtree \<Rightarrow> space \<Rightarrow> nat option \<Rightarrow> nat \<Rightarrow> space \<Rightarrow> bool"
  and explore_called :: "kdtree \<Rightarrow> space \<Rightarrow> nat option \<Rightarrow> nat \<Rightarrow> space \<Rightarrow> bool"
  for tree :: kdtree and search_space :: space where
  root_call:
    "t_root tree = Some r \<Longrightarrow> r < length (t_node_data tree) \<Longrightarrow>
     \<not> is_leaf_node (t_node_data tree ! r) \<Longrightarrow>
     search_called tree search_space (t_root tree) 0 initial_domain"
| left_call:
    "search_called tree search_space (Some p) depth domain \<Longrightarrow> p < length (t_node_data tree) \<Longrightarrow>
     explore_called tree search_space (n_left (t_node_data tree ! p)) depth
       (dim_max_update (depth mod NDIMS) (n_split (t_node_data tree ! p)) domain)"
| right_call:
    "search_called tree search_space (Some p) depth domain \<Longrightarrow> p < length (t_node_data tree) \<Longrightarrow>
     explore_called tree search_space (n_right (t_node_data tree ! p)) depth
       (dim_min_update (depth mod NDIMS) (n_split (t_node_data tree ! p))
          (dim_max_update (depth mod NDIMS) (b_max (s_dim domain ! (depth mod NDIMS)))
             (dim_max_update (depth mod NDIMS) (n_split (t_node_data tree ! p)) domain)))"
| descend:
    "explore_called tree search_space (Some p) depth domain \<Longrightarrow> p < length (t_node_data tree) \<Longrightarrow>
     \<not> is_leaf_node (t_node_data tree ! p) \<Longrightarrow>
     search_area_intersects search_space domain \<Longrightarrow>
     \<not> completely_enclosed search_space domain \<Longrightarrow>
     search_called tree search_space (Some p) (depth + 1) domain"

text \<open>
  The point cache slots reachable under a node: the slot a leaf refers to, and the slots
  reachable under the children of a branch. These are the slots whose points
  \<^verbatim>\<open>_report_all_leaves\<close> emits.
\<close>

inductive leaf_under :: "kdtree \<Rightarrow> nat option \<Rightarrow> nat \<Rightarrow> bool" for tree :: kdtree where
  leaf_here:
    "p < length (t_node_data tree) \<Longrightarrow> is_leaf_node (t_node_data tree ! p) \<Longrightarrow>
     leaf_under tree (Some p) (n_idx (t_node_data tree ! p))"
| leaf_left:
    "p < length (t_node_data tree) \<Longrightarrow> \<not> is_leaf_node (t_node_data tree ! p) \<Longrightarrow>
     leaf_under tree (n_left (t_node_data tree ! p)) i \<Longrightarrow> leaf_under tree (Some p) i"
| leaf_right:
    "p < length (t_node_data tree) \<Longrightarrow> \<not> is_leaf_node (t_node_data tree ! p) \<Longrightarrow>
     leaf_under tree (n_right (t_node_data tree ! p)) i \<Longrightarrow> leaf_under tree (Some p) i"

text \<open>
  Two boxes, and the domain that a search of \<open>inf_tree\<close> passes to the left child of the
  root: the initial domain with the maximum of x set to the split value 1.
\<close>

definition whole_box :: space where
  "whole_box = box (- DBL_MAX) DBL_MAX (- DBL_MAX) DBL_MAX (- DBL_MAX) DBL_MAX"

definition top_box :: space where
  "top_box = box MInf PInf PInf PInf MInf PInf"

definition left_domain :: space where
  "left_domain = dim_max_update 0 (Fin 1) initial_domain"

subsection \<open>The domain of a call bounds the subtree of its node\<close>

text \<open>
  What holds of a call on the node \<open>node\<close> at depth \<open>depth\<close> with the domain \<open>domain\<close>,
  when the subtree of the node is partitioned from depth \<open>d\<close> on: the node is the root of a
  subtree \<open>t\<close> laid out in the arena, whose leaves are leaves of the whole tree \<open>t0\<close> and lie
  within the domain.
\<close>

definition bounded_call ::
    "kdtree \<Rightarrow> ptree \<Rightarrow> nat option \<Rightarrow> nat \<Rightarrow> space \<Rightarrow> ptree \<Rightarrow> bool" where
  "bounded_call tree t0 node d domain t \<longleftrightarrow>
     (\<exists>p cells slots. node = Some p \<and>
        layout (t_node_data tree) (t_points tree) p cells slots t) \<and>
     partitioned d t \<and> length (s_dim domain) = 3 \<and>
     set (p_leaves t) \<subseteq> set (p_leaves t0) \<and>
     (\<forall>q \<in> set (p_leaves t). point_in_search_space q domain)"

section \<open>The caller's arrays\<close>

subsection \<open>The build with the caller's memory\<close>

text \<open>
  The memory a call of \<^verbatim>\<open>kdtree_build\<close> works in: the objects live at the time, by
  address. An array of doubles, such as the caller's \<^verbatim>\<open>x\<close>, \<^verbatim>\<open>y\<close> and \<^verbatim>\<open>z\<close>, is one
  object; a tree, with the point cache and the arena it owns, is one object. The
  arguments \<^verbatim>\<open>x\<close>, \<^verbatim>\<open>y\<close>, \<^verbatim>\<open>z\<close> and the handle are addresses.
\<close>

datatype object = Double_array "double list" | Tree_object kdtree

type_synonym memory = "nat \<Rightarrow> object option"

text \<open>\<^verbatim>\<open>a[i]\<close> for an array of doubles at address \<open>a\<close>.\<close>

definition load_double :: "memory \<Rightarrow> nat \<Rightarrow> nat \<Rightarrow> error + double" where
  "load_double m a i =
     (case m a of
        Some (Double_array xs) \<Rightarrow> if i < length xs then Inr (xs ! i) else Inl Out_of_bounds
      | _ \<Rightarrow> Inl Null_dereference)"

text \<open>The tree at address \<open>a\<close>.\<close>

definition load_tree :: "memory \<Rightarrow> nat \<Rightarrow> error + kdtree" where
  "load_tree m a = (case m a of Some (Tree_object tree) \<Rightarrow> Inr tree | _ \<Rightarrow> Inl Null_dereference)"

text \<open>An assignment to a field of \<^verbatim>\<open>tree->points[i]\<close>, for the tree at address \<open>a\<close>.\<close>

definition store_point ::
    "memory \<Rightarrow> nat \<Rightarrow> nat \<Rightarrow> (data_point \<Rightarrow> data_point) \<Rightarrow> error + memory" where
  "store_point m a i f =
     (case load_tree m a of
        Inl e \<Rightarrow> Inl e
      | Inr tree \<Rightarrow>
          if \<not> i < length (t_points tree) then Inl Out_of_bounds
          else Inr (m(a \<mapsto> Tree_object
                      (tree\<lparr>t_points := (t_points tree)[i := f (t_points tree ! i)]\<rparr>))))"

text \<open>
  The loop of \<^verbatim>\<open>kdtree_build\<close> that copies the coordinates, one assignment after the
  other: each reads the memory the one before left.
\<close>

function cache_points_mem ::
    "nat \<Rightarrow> nat \<Rightarrow> nat \<Rightarrow> nat \<Rightarrow> nat \<Rightarrow> nat \<Rightarrow> memory \<Rightarrow> error + memory" where
  "cache_points_mem xp yp zp cnt i a m =
     (if i < cnt then
        (case store_point m a i (\<lambda>p. p\<lparr>p_idx := i\<rparr>) of
           Inl e \<Rightarrow> Inl e
         | Inr m1 \<Rightarrow>
        (case load_double m1 xp i of
           Inl e \<Rightarrow> Inl e
         | Inr vx \<Rightarrow>
        (case store_point m1 a i (\<lambda>p. p\<lparr>p_x := vx\<rparr>) of
           Inl e \<Rightarrow> Inl e
         | Inr m2 \<Rightarrow>
        (case load_double m2 yp i of
           Inl e \<Rightarrow> Inl e
         | Inr vy \<Rightarrow>
        (case store_point m2 a i (\<lambda>p. p\<lparr>p_y := vy\<rparr>) of
           Inl e \<Rightarrow> Inl e
         | Inr m3 \<Rightarrow>
        (case load_double m3 zp i of
           Inl e \<Rightarrow> Inl e
         | Inr vz \<Rightarrow>
        (case store_point m3 a i (\<lambda>p. p\<lparr>p_z := vz\<rparr>) of
           Inl e \<Rightarrow> Inl e
         | Inr m4 \<Rightarrow> cache_points_mem xp yp zp cnt (i + 1) a m4)))))))
      else Inr m)"
  by pat_completeness auto

termination
  by (relation "measure (\<lambda>(xp, yp, zp, cnt, i, a, m). cnt - i)") auto

declare cache_points_mem.simps [simp del]

text \<open>
  \<^verbatim>\<open>kdtree_build\<close> in that memory. \<open>tree_ptr\<close> is the value of the handle, \<open>fresh\<close> the
  address \<^verbatim>\<open>malloc\<close> returns if the build allocates; the result is the new value of the
  handle and the memory after the call. \<^verbatim>\<open>kdtree_delete\<close> frees the tree the handle
  referred to. \<^verbatim>\<open>_build_kdtree\<close> is passed the tree and nothing else.
\<close>

definition kdtree_build_mem ::
    "qsort_fn \<Rightarrow> uninit \<Rightarrow> nat \<Rightarrow> nat \<Rightarrow> nat \<Rightarrow> nat \<Rightarrow> nat \<Rightarrow> nat option \<Rightarrow> memory \<Rightarrow>
     error + nat option \<times> memory" where
  "kdtree_build_mem qs u fresh xp yp zp cnt tree_ptr m =
     (if \<not> cnt > 1 then Inl Assertion_failed
      else
        case (case tree_ptr of
                None \<Rightarrow> Inr (fresh, m(fresh \<mapsto> Tree_object (new_tree u cnt)))
              | Some a0 \<Rightarrow>
                  (case load_tree m a0 of
                     Inl e \<Rightarrow> Inl e
                   | Inr tree0 \<Rightarrow>
                       if t_count tree0 \<noteq> cnt
                       then Inr (fresh, (m(a0 := None))(fresh \<mapsto> Tree_object (new_tree u cnt)))
                       else Inr (a0, m))) of
          Inl e \<Rightarrow> Inl e
        | Inr (a, m1) \<Rightarrow>
            (case load_tree m1 a of
               Inl e \<Rightarrow> Inl e
             | Inr tree1 \<Rightarrow>
                 (case cache_points_mem xp yp zp cnt 0 a
                         (m1(a \<mapsto> Tree_object (tree1\<lparr>t_next_node := 0\<rparr>))) of
                    Inl e \<Rightarrow> Inl e
                  | Inr m2 \<Rightarrow>
                      (case load_tree m2 a of
                         Inl e \<Rightarrow> Inl e
                       | Inr tree2 \<Rightarrow>
                           (case build_kdtree qs 0 (cnt - 1) 0 tree2 of
                              Inl e \<Rightarrow> Inl e
                            | Inr (node, tree3) \<Rightarrow>
                                Inr (Some a,
                                     m2(a \<mapsto> Tree_object (tree3\<lparr>t_root := Some node\<rparr>))))))))"

text \<open>The tree a handle refers to, and a handle that is NULL or refers to a tree built earlier.\<close>

definition handle_tree :: "memory \<Rightarrow> nat option \<Rightarrow> kdtree option" where
  "handle_tree m tree_ptr =
     (case tree_ptr of
        None \<Rightarrow> None
      | Some a \<Rightarrow> (case m a of Some (Tree_object tree) \<Rightarrow> Some tree | _ \<Rightarrow> None))"

definition mem_handle_ok :: "memory \<Rightarrow> nat option \<Rightarrow> bool" where
  "mem_handle_ok m tree_ptr \<longleftrightarrow>
     (case tree_ptr of
        None \<Rightarrow> True
      | Some a \<Rightarrow> (case m a of Some (Tree_object tree) \<Rightarrow> allocated tree | _ \<Rightarrow> False))"

text \<open>
  The address of the tree after the build, and the memory the build starts from once a
  tree of another count has been freed.
\<close>

definition built_address :: "memory \<Rightarrow> nat \<Rightarrow> nat \<Rightarrow> nat option \<Rightarrow> nat" where
  "built_address m fresh cnt tree_ptr =
     (case tree_ptr of
        None \<Rightarrow> fresh
      | Some a0 \<Rightarrow>
          (case m a0 of
             Some (Tree_object tree0) \<Rightarrow> if t_count tree0 \<noteq> cnt then fresh else a0
           | _ \<Rightarrow> fresh))"

definition memory_after_delete :: "memory \<Rightarrow> nat \<Rightarrow> nat option \<Rightarrow> memory" where
  "memory_after_delete m cnt tree_ptr =
     (case tree_ptr of
        None \<Rightarrow> m
      | Some a0 \<Rightarrow>
          (case m a0 of
             Some (Tree_object tree0) \<Rightarrow> if t_count tree0 \<noteq> cnt then m(a0 := None) else m
           | _ \<Rightarrow> m))"

text \<open>A small memory: three arrays at the addresses 1, 2 and 3, and nothing else.\<close>

definition example_memory :: memory where
  "example_memory =
     (\<lambda>a. if a = 1 then Some (Double_array [Fin 0, Fin 1, Fin 2])
          else if a = 2 then Some (Double_array [Fin 2, Fin 1, Fin 0])
          else if a = 3 then Some (Double_array [Fin 1, Fin 1, Fin 1])
          else None)"

section \<open>Doubles\<close>

lemma less_double_simps [simp]:
  "Fin a < Fin b \<longleftrightarrow> a < b" "MInf < Fin b" "Fin a < PInf" "MInf < PInf"
  "\<not> PInf < d" "\<not> d < MInf"
  by (cases d; auto simp: less_double_def)+

lemma DBL_MAX_positive: "Fin 1 \<le> DBL_MAX" "- DBL_MAX \<le> Fin (- 1)"
  by (simp_all add: DBL_MAX_def)

lemma finite_double_unit: "- 1 \<le> a \<Longrightarrow> a \<le> 1 \<Longrightarrow> finite_double (Fin a)"
proof -
  assume a: "- 1 \<le> a" "a \<le> 1"
  have "Fin a \<le> Fin 1" "Fin (- 1) \<le> Fin a" using a by simp_all
  then show ?thesis
    unfolding finite_double_def using DBL_MAX_positive by (meson order_trans)
qed

lemma not_finite_PInf: "\<not> finite_double PInf" "\<not> finite_double MInf"
  by (simp_all add: finite_double_def DBL_MAX_def)

section \<open>The iterator\<close>

lemma growth_ratio_gt_1: "1 < KDTREE_ITERATOR_GROWTH_RATIO"
  by (simp add: KDTREE_ITERATOR_GROWTH_RATIO_def)

lemma get_next_times_exhausted:
  "i_current iter = i_size iter \<Longrightarrow> get_next_times k iter = Inr (replicate k KDTREE_END, iter)"
  by (induction k) (simp_all add: kdtree_iterator_get_next_def)

lemma get_next_times_available:
  "i_current iter + k \<le> i_size iter \<Longrightarrow> i_size iter \<le> length (i_data iter) \<Longrightarrow>
   get_next_times k iter =
     Inr (take k (drop (i_current iter) (i_data iter)), iter\<lparr>i_current := i_current iter + k\<rparr>)"
proof (induction k arbitrary: iter)
  case 0
  then show ?case by simp
next
  case (Suc k)
  let ?iter1 = "iter\<lparr>i_current := i_current iter + 1\<rparr>"
  have step: "kdtree_iterator_get_next iter = Inr (i_data iter ! i_current iter, ?iter1)"
    using Suc.prems by (simp add: kdtree_iterator_get_next_def)
  have rest: "get_next_times k ?iter1 =
      Inr (take k (drop (i_current iter + 1) (i_data iter)), iter\<lparr>i_current := i_current iter + 1 + k\<rparr>)"
    using Suc.IH [of ?iter1] Suc.prems by simp
  have "i_current iter < length (i_data iter)"
    using Suc.prems by simp
  then have "take (Suc k) (drop (i_current iter) (i_data iter)) =
      i_data iter ! i_current iter # take k (drop (i_current iter + 1) (i_data iter))"
    by (simp add: Cons_nth_drop_Suc [symmetric])
  with step rest show ?case by simp
qed

lemma get_next_times_append:
  "get_next_times j iter = Inr (vs, iter1) \<Longrightarrow> get_next_times k iter1 = Inr (ws, iter2) \<Longrightarrow>
   get_next_times (j + k) iter = Inr (vs @ ws, iter2)"
  by (induction j arbitrary: iter vs) (auto split: sum.splits prod.splits)

text \<open>
  Claim C8. Let \<open>iter\<close> be an iterator whose buffer holds at least \<open>i_size\<close> slots.
  \<^item> While the cursor is not at \<open>i_size\<close>, \<open>kdtree_iterator_get_next\<close> returns the
    element at the cursor and moves the cursor on by one.
  \<^item> Once the cursor equals \<open>i_size\<close>, any number \<open>k\<close> of further calls return
    \<open>KDTREE_END\<close> each time and leave the iterator as it was.
  \<^item> \<open>kdtree_iterator_rewind\<close> sets the cursor to 0 and changes nothing else, so the
    contents are the same.
  \<^item> After a rewind, \<open>i_size + k\<close> calls return the contents from the first element on,
    in order, and then \<open>k\<close> times \<open>KDTREE_END\<close>. Since a rewind of any later state gives
    the same iterator again, every replay returns the same sequence.
\<close>

theorem iterator_next_rewind:
  assumes "i_size iter \<le> length (i_data iter)"
  shows "(i_current iter \<noteq> i_size iter \<and> i_current iter < length (i_data iter) \<longrightarrow>
           kdtree_iterator_get_next iter =
             Inr (i_data iter ! i_current iter, iter\<lparr>i_current := i_current iter + 1\<rparr>)) \<and>
         (i_current iter = i_size iter \<longrightarrow>
           get_next_times k iter = Inr (replicate k KDTREE_END, iter)) \<and>
         kdtree_iterator_rewind iter = iter\<lparr>i_current := 0\<rparr> \<and>
         contents (kdtree_iterator_rewind iter) = contents iter \<and>
         get_next_times (i_size iter + k) (kdtree_iterator_rewind iter) =
           Inr (contents iter @ replicate k KDTREE_END, iter\<lparr>i_current := i_size iter\<rparr>) \<and>
         kdtree_iterator_rewind (iter\<lparr>i_current := i_size iter\<rparr>) = kdtree_iterator_rewind iter"
proof -
  let ?r = "kdtree_iterator_rewind iter"
  let ?e = "iter\<lparr>i_current := i_size iter\<rparr>"
  have a: "get_next_times (i_size iter) ?r = Inr (contents iter, ?e)"
    using assms get_next_times_available [of ?r "i_size iter"]
    by (simp add: kdtree_iterator_rewind_def contents_def)
  have b: "get_next_times k ?e = Inr (replicate k KDTREE_END, ?e)"
    by (rule get_next_times_exhausted) simp
  have c: "get_next_times (i_size iter + k) ?r = Inr (contents iter @ replicate k KDTREE_END, ?e)"
    by (rule get_next_times_append [OF a b])
  show ?thesis
    using c
    by (simp add: get_next_times_exhausted kdtree_iterator_get_next_def
        kdtree_iterator_rewind_def contents_def)
qed

theorem iterator_next_rewind_witness:
  "kdtree_iterator_get_next example_iterator = Inr (0, example_iterator\<lparr>i_current := 2\<rparr>) \<and>
   get_next_times 2 (example_iterator\<lparr>i_current := 3\<rparr>) =
     Inr ([KDTREE_END, KDTREE_END], example_iterator\<lparr>i_current := 3\<rparr>) \<and>
   get_next_times 5 (kdtree_iterator_rewind example_iterator) =
     Inr ([3, 0, 7, KDTREE_END, KDTREE_END], example_iterator\<lparr>i_current := 3\<rparr>)"
  using iterator_next_rewind [of example_iterator 2]
    iterator_next_rewind [of "example_iterator\<lparr>i_current := 3\<rparr>" 2]
  by (simp add: example_iterator_def contents_def kdtree_iterator_rewind_def numeral_2_eq_2)

section \<open>Lists, trees and layouts\<close>

subsection \<open>Sub-ranges and the sort\<close>

lemma slice_length: "hi < length xs \<Longrightarrow> lo \<le> hi \<Longrightarrow> length (slice xs lo hi) = hi - lo + 1"
  by (simp add: slice_def)

lemma slice_nth: "hi < length xs \<Longrightarrow> lo \<le> hi \<Longrightarrow> k \<le> hi - lo \<Longrightarrow> slice xs lo hi ! k = xs ! (lo + k)"
  by (simp add: slice_def)

lemma slice_single: "lo < length xs \<Longrightarrow> slice xs lo lo = [xs ! lo]"
  by (simp add: slice_def take_Suc_conv_app_nth)

lemma slice_take: "lo \<le> m \<Longrightarrow> m \<le> hi \<Longrightarrow> take (m - lo + 1) (slice xs lo hi) = slice xs lo m"
  by (simp add: slice_def min_def)

lemma slice_drop: "lo \<le> m \<Longrightarrow> m < hi \<Longrightarrow> drop (m - lo + 1) (slice xs lo hi) = slice xs (m + 1) hi"
proof -
  assume "lo \<le> m" "m < hi"
  then have "hi - lo + 1 - (m - lo + 1) = hi - (m + 1) + 1" by simp
  then show ?thesis
    using \<open>lo \<le> m\<close> by (simp add: slice_def drop_take add.commute)
qed

lemma slice_cong:
  assumes "length ys = length xs" "hi < length xs" "lo \<le> hi"
    and eq: "\<And>i. lo \<le> i \<Longrightarrow> i \<le> hi \<Longrightarrow> ys ! i = xs ! i"
  shows "slice ys lo hi = slice xs lo hi"
proof (rule nth_equalityI)
  show "length (slice ys lo hi) = length (slice xs lo hi)"
    using assms(1) by (simp add: slice_def)
next
  fix i
  assume "i < length (slice ys lo hi)"
  then have i: "i < hi - lo + 1" "lo + i < length xs"
    using assms(1) by (auto simp: slice_def)
  then have "ys ! (lo + i) = xs ! (lo + i)"
    using assms(3) by (intro eq) simp_all
  then show "slice ys lo hi ! i = slice xs lo hi ! i"
    using i assms(1) by (simp add: slice_def)
qed

lemma qsort_range_length:
  "length (qs cmp (take n (drop base points))) = length (take n (drop base points)) \<Longrightarrow>
   length (qsort_range qs cmp base n points) = length points"
  by (simp add: qsort_range_def)

lemma func_select_mem: "axis < 3 \<Longrightarrow> func_select ! axis \<in> set func_select"
  by (rule nth_mem) (simp add: func_select_def)

lemma qsort_ok_mset: "qsort_ok qs \<Longrightarrow> axis < 3 \<Longrightarrow> mset (qs (func_select ! axis) xs) = mset xs"
  using func_select_mem [of axis] by (simp add: qsort_ok_def)

lemma qsort_ok_length: "qsort_ok qs \<Longrightarrow> axis < 3 \<Longrightarrow> length (qs (func_select ! axis) xs) = length xs"
  using qsort_ok_mset [of qs axis xs] by (metis size_mset)

lemma CMP_le_0: "CMP a b \<le> 0 \<longleftrightarrow> a \<le> b"
  by (auto simp: CMP_def)

lemma func_select_le_0: "axis < 3 \<Longrightarrow> (func_select ! axis) a b \<le> 0 \<longleftrightarrow> coord axis a \<le> coord axis b"
proof -
  assume "axis < 3"
  then consider "axis = 0" | "axis = 1" | "axis = 2" by linarith
  then show ?thesis
    by cases (simp_all add: func_select_def cmp_x_def cmp_y_def cmp_z_def coord_def CMP_le_0)
qed

lemma qsort_ok_sorted:
  "qsort_ok qs \<Longrightarrow> axis < 3 \<Longrightarrow>
   sorted_wrt (\<lambda>a b. coord axis a \<le> coord axis b) (qs (func_select ! axis) xs)"
proof -
  assume a: "qsort_ok qs" "axis < 3"
  then have "sorted_wrt (\<lambda>a b. (func_select ! axis) a b \<le> 0) (qs (func_select ! axis) xs)"
    using func_select_mem [of axis] by (simp add: qsort_ok_def)
  then show ?thesis
    using a(2) by (simp add: func_select_le_0)
qed

lemma qsort_range_slice:
  assumes "length (qs cmp (slice points lo hi)) = hi - lo + 1" "lo \<le> hi" "hi < length points"
  shows "slice (qsort_range qs cmp lo (hi - lo + 1) points) lo hi = qs cmp (slice points lo hi)"
  using assms by (simp add: slice_def qsort_range_def)

lemma qsort_range_outside:
  assumes "length (qs cmp (slice points lo hi)) = hi - lo + 1" "lo \<le> hi" "hi < length points"
    "i < lo \<or> hi < i"
  shows "qsort_range qs cmp lo (hi - lo + 1) points ! i = points ! i"
proof (cases "i < lo")
  case True
  then show ?thesis using assms by (simp add: qsort_range_def nth_append)
next
  case False
  with assms have "hi < i" by simp
  then show ?thesis
    using assms False
    by (cases "i < length points")
       (auto simp: qsort_range_def nth_append slice_def)
qed

subsection \<open>Trees, layouts and what the specification allows\<close>

lemma leaf_count_length: "leaf_count t = length (p_leaves t)"
  by (induction t) simp_all

lemma branch_count_leaf_count: "branch_count t + 1 = leaf_count t"
  by (induction t) simp_all

lemma layout_leaves:
  "layout nodes points p cells slots t \<Longrightarrow> p_leaves t = map ((!) points) slots"
  by (induction rule: layout.induct) simp_all

lemma layout_slots_in_range:
  "layout nodes points p cells slots t \<Longrightarrow> \<forall>s \<in> set slots. s < length points"
  by (induction rule: layout.induct) auto

lemma layout_cells_leaves:
  "layout nodes points p cells slots t \<Longrightarrow>
   map n_idx (filter is_leaf_node (map ((!) nodes) cells)) = slots"
  by (induction rule: layout.induct) (simp_all add: is_leaf_node_def)

lemma layout_cells_branches:
  "layout nodes points p cells slots t \<Longrightarrow>
   length (filter (\<lambda>n. \<not> is_leaf_node n) (map ((!) nodes) cells)) = branch_count t"
  by (induction rule: layout.induct) (simp_all add: is_leaf_node_def)

lemma layout_root:
  "layout nodes points p cells slots t \<Longrightarrow> p < length nodes \<and> hd cells = p"
  by (induction rule: layout.induct) simp_all

lemma layout_branch_not_leaf:
  "layout nodes points p cells slots (PBranch s l r) \<Longrightarrow> \<not> is_leaf_node (nodes ! p)"
  by (erule layout.cases) (simp_all add: is_leaf_node_def)

lemma spec_leaves_mset:
  "spec_build_subtree depth points t \<Longrightarrow> mset (p_leaves t) = mset points"
proof (induction rule: spec_build_subtree.induct)
  case (leaf depth p)
  then show ?case by simp
next
  case (branch points axis depth ordered mid l r)
  have "mset (p_leaves (PBranch (coord axis (ordered ! mid)) l r)) =
      mset (take (mid + 1) ordered) + mset (drop (mid + 1) ordered)"
    using branch.IH by simp
  also have "\<dots> = mset (take (mid + 1) ordered @ drop (mid + 1) ordered)"
    by (simp only: mset_append)
  finally show ?case using branch.hyps(3) by (simp only: append_take_drop_id)
qed

lemma spec_leaf_count: "spec_build_subtree depth points t \<Longrightarrow> leaf_count t = length points"
  using spec_leaves_mset [of depth points t] by (metis leaf_count_length size_mset)

lemma spec_balanced: "spec_build_subtree depth points t \<Longrightarrow> balanced t"
proof (induction rule: spec_build_subtree.induct)
  case (leaf depth p)
  then show ?case by simp
next
  case (branch points axis depth ordered mid l r)
  have len: "length ordered = length points"
    using branch.hyps(3) by (metis size_mset)
  have l: "leaf_count l = mid + 1"
    using spec_leaf_count [OF branch.hyps(6)] len branch.hyps(1,5) by simp
  have r: "leaf_count r = length points - (mid + 1)"
    using spec_leaf_count [OF branch.hyps(7)] len by simp
  have "leaf_count l = leaf_count r \<or> leaf_count l = leaf_count r + 1"
    unfolding l r using branch.hyps(1,5) by presburger
  with branch.IH show ?case by simp
qed

lemma spec_partitioned: "spec_build_subtree depth points t \<Longrightarrow> partitioned depth t"
proof (induction rule: spec_build_subtree.induct)
  case (leaf depth p)
  then show ?case by simp
next
  case (branch points axis depth ordered mid l r)
  have len: "length ordered = length points"
    using branch.hyps(3) by (metis size_mset)
  have mid: "mid < length ordered"
    using len branch.hyps(1,5) by simp
  have "coord axis p \<le> coord axis (ordered ! mid)" if "p \<in> set (p_leaves l)" for p
  proof -
    have "p \<in> set (take (mid + 1) ordered)"
      using that spec_leaves_mset [OF branch.hyps(6)] by (metis set_mset_mset)
    then obtain i where i: "i < mid + 1" "i < length ordered" "p = ordered ! i"
      by (auto simp: in_set_conv_nth)
    show ?thesis
    proof (cases "i = mid")
      case True
      with i show ?thesis by simp
    next
      case False
      with i have "i < mid" by simp
      then show ?thesis
        using sorted_wrt_nth_less [OF branch.hyps(4), of i mid] mid i by simp
    qed
  qed
  moreover have "coord axis (ordered ! mid) \<le> coord axis p" if "p \<in> set (p_leaves r)" for p
  proof -
    have "p \<in> set (drop (mid + 1) ordered)"
      using that spec_leaves_mset [OF branch.hyps(7)] by (metis set_mset_mset)
    then obtain k where "k < length (drop (mid + 1) ordered)" "p = drop (mid + 1) ordered ! k"
      by (auto simp: in_set_conv_nth)
    then have j: "mid + 1 + k < length ordered" "p = ordered ! (mid + 1 + k)"
      by simp_all
    show ?thesis
      using sorted_wrt_nth_less [OF branch.hyps(4), of mid "mid + 1 + k"] j by simp
  qed
  ultimately show ?case
    using branch.IH branch.hyps(2) by simp
qed

section \<open>The builder\<close>

lemma get_leaf_node_ok:
  assumes "t_next_node tree < t_max_nodes tree" "t_max_nodes tree \<le> length (t_node_data tree)"
  shows "get_leaf_node tree offset =
    Inr (t_next_node tree,
         tree\<lparr>t_next_node := t_next_node tree + 1,
              t_node_data := (t_node_data tree)[t_next_node tree :=
                (t_node_data tree ! t_next_node tree)\<lparr>n_left := None, n_right := None, n_idx := offset\<rparr>]\<rparr>)"
  using assms by (simp add: get_leaf_node_def next_node_def node_update_def)

lemma get_branch_node_ok:
  assumes "t_next_node tree < t_max_nodes tree" "t_max_nodes tree \<le> length (t_node_data tree)"
  shows "get_branch_node tree s =
    Inr (t_next_node tree,
         tree\<lparr>t_next_node := t_next_node tree + 1,
              t_node_data := (t_node_data tree)[t_next_node tree :=
                (t_node_data tree ! t_next_node tree)\<lparr>n_split := s\<rparr>]\<rparr>)"
  using assms by (simp add: get_branch_node_def next_node_def node_update_def)

lemma layout_frame:
  assumes "layout nodes points p cells slots pt"
    and "length nodes' = length nodes" "length points' = length points"
    and "\<forall>a \<in> set cells. nodes' ! a = nodes ! a"
    and "\<forall>s \<in> set slots. points' ! s = points ! s"
  shows "layout nodes' points' p cells slots pt"
  using assms
proof (induction rule: layout.induct)
  case (leaf p nodes points)
  then have "layout nodes' points' p [p] [n_idx (nodes' ! p)] (PLeaf (points' ! n_idx (nodes' ! p)))"
    by (intro layout.leaf) simp_all
  with leaf show ?case by simp
next
  case (branch p nodes l r points cells1 slots1 lt cells2 slots2 rt)
  then have "layout nodes' points' p (p # cells1 @ cells2) (slots1 @ slots2)
      (PBranch (n_split (nodes' ! p)) lt rt)"
    by (intro layout.branch) simp_all
  with branch show ?case by simp
qed

lemma build_leaf:
  assumes "idx_from < length (t_points tree)"
    "t_next_node tree + 1 \<le> t_max_nodes tree" "t_max_nodes tree \<le> length (t_node_data tree)"
  shows "\<exists>node tree' pt. build_kdtree qs idx_from idx_from depth tree = Inr (node, tree') \<and>
           built qs idx_from idx_from depth tree node tree' pt"
proof -
  let ?c = "t_next_node tree"
  let ?nodes' = "(t_node_data tree)[?c :=
       (t_node_data tree ! ?c)\<lparr>n_left := None, n_right := None, n_idx := idx_from\<rparr>]"
  let ?tree' = "tree\<lparr>t_next_node := ?c + 1, t_node_data := ?nodes'\<rparr>"
  have c: "?c < length (t_node_data tree)" using assms by simp
  have run: "build_kdtree qs idx_from idx_from depth tree = Inr (?c, ?tree')"
    using assms by (subst build_kdtree.simps) (simp add: get_leaf_node_ok)
  have "layout ?nodes' (t_points tree) ?c [?c] [n_idx (?nodes' ! ?c)]
          (PLeaf (t_points tree ! n_idx (?nodes' ! ?c)))"
    using c assms(1) by (intro layout.leaf) (simp_all add: is_leaf_node_def)
  then have lay: "layout ?nodes' (t_points tree) ?c [?c] [idx_from] (PLeaf (t_points tree ! idx_from))"
    using c by simp
  have spec: "spec_build_subtree depth (slice (t_points tree) idx_from idx_from)
      (PLeaf (t_points tree ! idx_from))"
    using assms(1) by (simp add: slice_single spec_build_subtree.leaf)
  have "leaf_step idx_from tree ?c ?tree' (PLeaf (t_points tree ! idx_from))"
    using c by (simp add: leaf_step_def is_leaf_node_def)
  then have "built qs idx_from idx_from depth tree ?c ?tree' (PLeaf (t_points tree ! idx_from))"
    using lay spec by (simp add: built_def)
  with run show ?thesis by blast
qed

lemma upt_split3: "c < c3 \<Longrightarrow> c3 \<le> c6 \<Longrightarrow> c # [Suc c..<c3] @ [c3..<c6] = [c..<c6]"
  using upt_add_eq_append [of "Suc c" c3 "c6 - c3"] by (simp add: upt_conv_Cons)

lemma upt_split2: "a \<le> m \<Longrightarrow> m \<le> b \<Longrightarrow> [a..<Suc m] @ [Suc m..<Suc b] = [a..<Suc b]"
  using upt_add_eq_append [of a "Suc m" "b - m"] by simp

lemma builtD:
  assumes "built qs idx_from idx_to depth tree node tree' pt"
  shows "node = t_next_node tree"
    and "t_next_node tree' = t_next_node tree + 2 * (idx_to - idx_from) + 1"
    and "t_count tree' = t_count tree"
    and "t_max_nodes tree' = t_max_nodes tree"
    and "t_root tree' = t_root tree"
    and "length (t_node_data tree') = length (t_node_data tree)"
    and "length (t_points tree') = length (t_points tree)"
    and "\<And>i. i < t_next_node tree \<or> t_next_node tree' \<le> i \<Longrightarrow>
           t_node_data tree' ! i = t_node_data tree ! i"
    and "\<And>i. i < idx_from \<or> idx_to < i \<Longrightarrow> t_points tree' ! i = t_points tree ! i"
    and "layout (t_node_data tree') (t_points tree') node
           [t_next_node tree..<t_next_node tree'] [idx_from..<Suc idx_to] pt"
    and "spec_build_subtree depth (slice (t_points tree) idx_from idx_to) pt"
    and "idx_from = idx_to \<Longrightarrow> leaf_step idx_from tree node tree' pt"
    and "idx_from < idx_to \<Longrightarrow> branch_step qs idx_from idx_to depth tree node tree' pt"
  using assms unfolding built_def by blast+

lemma build_kdtree_built:
  assumes qs: "qsort_ok qs"
  shows "idx_from \<le> idx_to \<Longrightarrow> idx_to < length (t_points tree) \<Longrightarrow>
         t_next_node tree + 2 * (idx_to - idx_from) + 1 \<le> t_max_nodes tree \<Longrightarrow>
         t_max_nodes tree \<le> length (t_node_data tree) \<Longrightarrow>
         \<exists>node tree' pt. build_kdtree qs idx_from idx_to depth tree = Inr (node, tree') \<and>
           built qs idx_from idx_to depth tree node tree' pt"
proof (induction "idx_to - idx_from" arbitrary: idx_from idx_to depth tree rule: less_induct)
  case less
  show ?case
  proof (cases "idx_from = idx_to")
    case True
    with less.prems show ?thesis
      using build_leaf [of idx_from tree qs depth] by simp
  next
    case False
    with less.prems have lt: "idx_from < idx_to" by simp
    define axis where "axis = depth mod 3"
    define mid where "mid = idx_from + (idx_to - idx_from) div 2"
    define c where "c = t_next_node tree"
    define pts where "pts = t_points tree"
    define nodes where "nodes = t_node_data tree"
    define pts1 where "pts1 = qsort_range qs (func_select ! axis) idx_from (idx_to - idx_from + 1) pts"
    define sp where "sp = coord axis (pts1 ! mid)"
    define tree2 where "tree2 = tree\<lparr>t_points := pts1, t_next_node := c + 1,
        t_node_data := nodes[c := (nodes ! c)\<lparr>n_split := sp\<rparr>]\<rparr>"
    have axis: "axis < 3" by (simp add: axis_def)
    have mid: "idx_from \<le> mid" "mid < idx_to"
      using lt by (simp_all add: mid_def)
    have hi: "idx_to < length pts" using less.prems by (simp add: pts_def)
    have room: "c + 2 * (idx_to - idx_from) + 1 \<le> t_max_nodes tree"
      "t_max_nodes tree \<le> length nodes"
      using less.prems by (simp_all add: c_def nodes_def)
    have c_len: "c < length nodes" using room by simp
    have len_sorted: "length (qs (func_select ! axis) (slice pts idx_from idx_to)) = idx_to - idx_from + 1"
      using qs axis hi less.prems(1) by (simp add: qsort_ok_length slice_length)
    have len1: "length pts1 = length pts"
      unfolding pts1_def using len_sorted hi less.prems(1)
      by (intro qsort_range_length) (simp add: slice_def)
    have slice1: "slice pts1 idx_from idx_to = qs (func_select ! axis) (slice pts idx_from idx_to)"
      unfolding pts1_def using len_sorted less.prems(1) hi by (rule qsort_range_slice)
    have out1: "\<And>i. i < idx_from \<or> idx_to < i \<Longrightarrow> pts1 ! i = pts ! i"
      unfolding pts1_def using len_sorted less.prems(1) hi by (rule qsort_range_outside)
    have branch_node: "get_branch_node (tree\<lparr>t_points := pts1\<rparr>) sp = Inr (c, tree2)"
      using room by (simp add: get_branch_node_ok c_def nodes_def tree2_def)
    \<comment> \<open>the left subtree\<close>
    have "\<exists>node tree' pt. build_kdtree qs idx_from mid (depth + 1) tree2 = Inr (node, tree') \<and>
            built qs idx_from mid (depth + 1) tree2 node tree' pt"
    proof (rule less.hyps)
      show "mid - idx_from < idx_to - idx_from" using mid by simp
      show "idx_from \<le> mid" by (rule mid)
      show "mid < length (t_points tree2)" using mid hi len1 by (simp add: tree2_def)
      show "t_next_node tree2 + 2 * (mid - idx_from) + 1 \<le> t_max_nodes tree2"
        using room mid by (simp add: tree2_def)
      show "t_max_nodes tree2 \<le> length (t_node_data tree2)"
        using room by (simp add: tree2_def)
    qed
    then obtain l tree3 lt where left: "build_kdtree qs idx_from mid (depth + 1) tree2 = Inr (l, tree3)"
      and bl: "built qs idx_from mid (depth + 1) tree2 l tree3 lt"
      by blast
    define c3 where "c3 = c + 1 + 2 * (mid - idx_from) + 1"
    define tree4 where "tree4 = node_update c (\<lambda>n. n\<lparr>n_left := Some l\<rparr>) tree3"
    have l3: "l = c + 1" "t_next_node tree3 = c3" "t_max_nodes tree3 = t_max_nodes tree"
      "t_count tree3 = t_count tree" "t_root tree3 = t_root tree"
      "length (t_node_data tree3) = length nodes" "length (t_points tree3) = length pts"
      using builtD(1-7) [OF bl] len1 by (simp_all add: tree2_def c3_def)
    have nodes3: "\<And>i. i < c + 1 \<or> c3 \<le> i \<Longrightarrow> t_node_data tree3 ! i = (nodes[c := (nodes ! c)\<lparr>n_split := sp\<rparr>]) ! i"
      using builtD(8) [OF bl] l3 by (simp add: tree2_def)
    have pts3: "\<And>i. i < idx_from \<or> mid < i \<Longrightarrow> t_points tree3 ! i = pts1 ! i"
      using builtD(9) [OF bl] by (simp add: tree2_def)
    have lay3: "layout (t_node_data tree3) (t_points tree3) l [c + 1..<c3] [idx_from..<Suc mid] lt"
      using builtD(10) [OF bl] l3 by (simp add: tree2_def del: upt_Suc)
    have spec3: "spec_build_subtree (depth + 1) (slice pts1 idx_from mid) lt"
      using builtD(11) [OF bl] by (simp add: tree2_def)
    \<comment> \<open>the right subtree\<close>
    have "\<exists>node tree' pt. build_kdtree qs (mid + 1) idx_to (depth + 1) tree4 = Inr (node, tree') \<and>
            built qs (mid + 1) idx_to (depth + 1) tree4 node tree' pt"
    proof (rule less.hyps)
      show "idx_to - (mid + 1) < idx_to - idx_from" using mid by simp
      show "mid + 1 \<le> idx_to" using mid by simp
      show "idx_to < length (t_points tree4)" using hi l3 by (simp add: tree4_def node_update_def)
      show "t_next_node tree4 + 2 * (idx_to - (mid + 1)) + 1 \<le> t_max_nodes tree4"
        using room mid l3 by (simp add: tree4_def node_update_def c3_def)
      show "t_max_nodes tree4 \<le> length (t_node_data tree4)"
        using room l3 by (simp add: tree4_def node_update_def)
    qed
    then obtain r tree5 rt where right: "build_kdtree qs (mid + 1) idx_to (depth + 1) tree4 = Inr (r, tree5)"
      and br: "built qs (mid + 1) idx_to (depth + 1) tree4 r tree5 rt"
      by blast
    define c6 where "c6 = c + 2 * (idx_to - idx_from) + 1"
    define tree6 where "tree6 = node_update c (\<lambda>n. n\<lparr>n_right := Some r\<rparr>) tree5"
    have c36: "c < c3" "c3 < c6" "c3 + 2 * (idx_to - (mid + 1)) + 1 = c6"
      using mid by (simp_all add: c3_def c6_def)
    have l5: "r = c3" "t_next_node tree5 = c6" "t_max_nodes tree5 = t_max_nodes tree"
      "t_count tree5 = t_count tree" "t_root tree5 = t_root tree"
      "length (t_node_data tree5) = length nodes" "length (t_points tree5) = length pts"
      using builtD(1-7) [OF br] l3 c36 by (simp_all add: tree4_def node_update_def)
    have nodes5: "\<And>i. i < c3 \<or> c6 \<le> i \<Longrightarrow>
        t_node_data tree5 ! i = ((t_node_data tree3)[c := (t_node_data tree3 ! c)\<lparr>n_left := Some l\<rparr>]) ! i"
      using builtD(8) [OF br] l3 l5 by (simp add: tree4_def node_update_def)
    have pts5: "\<And>i. i < mid + 1 \<or> idx_to < i \<Longrightarrow> t_points tree5 ! i = t_points tree3 ! i"
      using builtD(9) [OF br] by (simp add: tree4_def node_update_def)
    have lay5: "layout (t_node_data tree5) (t_points tree5) r [c3..<c6] [mid + 1..<Suc idx_to] rt"
      using builtD(10) [OF br] l3 l5 by (simp add: tree4_def node_update_def del: upt_Suc)
    have spec5: "spec_build_subtree (depth + 1) (slice (t_points tree3) (mid + 1) idx_to) rt"
      using builtD(11) [OF br] by (simp add: tree4_def node_update_def)
    \<comment> \<open>the call returns the branch node\<close>
    have "build_kdtree qs idx_from idx_to depth tree =
        (case get_branch_node (tree\<lparr>t_points := pts1\<rparr>) sp of
           Inl e \<Rightarrow> Inl e
         | Inr (node, tree2) \<Rightarrow>
             (case build_kdtree qs idx_from mid (depth + 1) tree2 of
                Inl e \<Rightarrow> Inl e
              | Inr (l, tree3) \<Rightarrow>
                  (case build_kdtree qs (mid + 1) idx_to (depth + 1)
                          (node_update node (\<lambda>n. n\<lparr>n_left := Some l\<rparr>) tree3) of
                     Inl e \<Rightarrow> Inl e
                   | Inr (r, tree4) \<Rightarrow>
                       Inr (node, node_update node (\<lambda>n. n\<lparr>n_right := Some r\<rparr>) tree4))))"
      unfolding mid_def sp_def pts1_def axis_def pts_def
      using lt less.prems(2)
      by (subst build_kdtree.simps) (simp add: Let_def NDIMS_def)
    also have "\<dots> = Inr (c, tree6)"
      using branch_node left right by (simp add: tree4_def tree6_def)
    finally have run: "build_kdtree qs idx_from idx_to depth tree = Inr (c, tree6)" .
    \<comment> \<open>the node at \<open>c\<close>\<close>
    have node_c5: "t_node_data tree5 ! c = (nodes ! c)\<lparr>n_split := sp, n_left := Some l\<rparr>"
      using nodes5 [of c] nodes3 [of c] c36 c_len l3 by simp
    have node_c6: "t_node_data tree6 ! c = (nodes ! c)\<lparr>n_split := sp, n_left := Some l, n_right := Some r\<rparr>"
      using node_c5 c_len l5 by (simp add: tree6_def node_update_def)
    have other6: "\<And>i. i \<noteq> c \<Longrightarrow> t_node_data tree6 ! i = t_node_data tree5 ! i"
      by (simp add: tree6_def node_update_def)
    have f6: "t_next_node tree6 = c6" "t_max_nodes tree6 = t_max_nodes tree"
      "t_count tree6 = t_count tree" "t_root tree6 = t_root tree"
      "length (t_node_data tree6) = length nodes" "length (t_points tree6) = length pts"
      "t_points tree6 = t_points tree5"
      using l5 by (simp_all add: tree6_def node_update_def)
    have frame_nodes: "t_node_data tree6 ! i = nodes ! i" if "i < c \<or> c6 \<le> i" for i
    proof -
      from that c36 have i: "i \<noteq> c" "i < c3 \<or> c6 \<le> i" "i < c + 1 \<or> c3 \<le> i" by auto
      have "t_node_data tree6 ! i = t_node_data tree5 ! i" using i(1) by (rule other6)
      also have "\<dots> = t_node_data tree3 ! i" using nodes5 [OF i(2)] i(1) by simp
      also have "\<dots> = nodes ! i" using nodes3 [OF i(3)] i(1) by simp
      finally show ?thesis .
    qed
    have frame_points: "t_points tree6 ! i = pts ! i" if "i < idx_from \<or> idx_to < i" for i
    proof -
      from that mid have i: "i < mid + 1 \<or> idx_to < i" "i < idx_from \<or> mid < i" by auto
      have "t_points tree6 ! i = t_points tree3 ! i" using pts5 [OF i(1)] f6 by simp
      also have "\<dots> = pts1 ! i" by (rule pts3 [OF i(2)])
      also have "\<dots> = pts ! i" by (rule out1 [OF that])
      finally show ?thesis .
    qed
    have lay_l: "layout (t_node_data tree6) (t_points tree6) l [c + 1..<c3] [idx_from..<Suc mid] lt"
    proof (rule layout_frame [OF lay3])
      show "length (t_node_data tree6) = length (t_node_data tree3)" using f6 l3 by simp
      show "length (t_points tree6) = length (t_points tree3)" using f6 l3 by simp
      show "\<forall>a \<in> set [c + 1..<c3]. t_node_data tree6 ! a = t_node_data tree3 ! a"
        using other6 nodes5 by simp
      show "\<forall>s \<in> set [idx_from..<Suc mid]. t_points tree6 ! s = t_points tree3 ! s"
        using pts5 f6 by (auto simp del: upt_Suc)
    qed
    have lay_r: "layout (t_node_data tree6) (t_points tree6) r [c3..<c6] [mid + 1..<Suc idx_to] rt"
    proof (rule layout_frame [OF lay5])
      show "length (t_node_data tree6) = length (t_node_data tree5)" using f6 l5 by simp
      show "length (t_points tree6) = length (t_points tree5)" using f6 by simp
      show "\<forall>a \<in> set [c3..<c6]. t_node_data tree6 ! a = t_node_data tree5 ! a"
        using other6 c36 by simp
      show "\<forall>s \<in> set [mid + 1..<Suc idx_to]. t_points tree6 ! s = t_points tree5 ! s"
        using f6 by simp
    qed
    have cells: "c # [c + 1..<c3] @ [c3..<c6] = [c..<c6]"
      using c36 upt_split3 [of c c3 c6] by simp
    have slots: "[idx_from..<Suc mid] @ [mid + 1..<Suc idx_to] = [idx_from..<Suc idx_to]"
      using mid upt_split2 [of idx_from mid idx_to] by (simp del: upt_Suc)
    have split_c: "n_split (t_node_data tree6 ! c) = sp"
      using node_c6 by simp
    have "layout (t_node_data tree6) (t_points tree6) c (c # [c + 1..<c3] @ [c3..<c6])
        ([idx_from..<Suc mid] @ [mid + 1..<Suc idx_to])
        (PBranch (n_split (t_node_data tree6 ! c)) lt rt)"
      using c_len f6 node_c6 lay_l lay_r by (intro layout.branch) simp_all
    then have lay: "layout (t_node_data tree6) (t_points tree6) c [c..<c6] [idx_from..<Suc idx_to]
        (PBranch sp lt rt)"
      unfolding cells slots split_c .
    \<comment> \<open>the tree is one the specification allows\<close>
    have mid': "(length (slice pts idx_from idx_to) - 1) div 2 = mid - idx_from"
      using hi less.prems(1) by (simp add: slice_length mid_def)
    have "slice (t_points tree3) (mid + 1) idx_to = slice pts1 (mid + 1) idx_to"
      using l3 len1 hi mid pts3 by (intro slice_cong) simp_all
    then have spec_r: "spec_build_subtree (depth + 1)
        (drop (mid - idx_from + 1) (qs (func_select ! axis) (slice pts idx_from idx_to))) rt"
      using spec5 mid slice_drop [of idx_from mid idx_to pts1] slice1 by simp
    have spec_l: "spec_build_subtree (depth + 1)
        (take (mid - idx_from + 1) (qs (func_select ! axis) (slice pts idx_from idx_to))) lt"
      using spec3 mid slice_take [of idx_from mid idx_to pts1] slice1 by simp
    have sp': "sp = coord axis (qs (func_select ! axis) (slice pts idx_from idx_to) ! (mid - idx_from))"
      using slice_nth [of idx_to pts1 idx_from "mid - idx_from"] mid hi len1 slice1
      by (simp add: sp_def)
    have spec: "spec_build_subtree depth (slice pts idx_from idx_to) (PBranch sp lt rt)"
      unfolding sp'
    proof (rule spec_build_subtree.branch)
      show "2 \<le> length (slice pts idx_from idx_to)"
        using hi lt by (simp add: slice_length)
      show "axis = depth mod 3" by (rule axis_def)
      show "mset (qs (func_select ! axis) (slice pts idx_from idx_to)) = mset (slice pts idx_from idx_to)"
        using qs axis by (rule qsort_ok_mset)
      show "sorted_wrt (\<lambda>a b. coord axis a \<le> coord axis b)
          (qs (func_select ! axis) (slice pts idx_from idx_to))"
        using qs axis by (rule qsort_ok_sorted)
      show "mid - idx_from = (length (slice pts idx_from idx_to) - 1) div 2"
        by (rule mid' [symmetric])
      show "spec_build_subtree (depth + 1)
          (take (mid - idx_from + 1) (qs (func_select ! axis) (slice pts idx_from idx_to))) lt"
        by (rule spec_l)
      show "spec_build_subtree (depth + 1)
          (drop (mid - idx_from + 1) (qs (func_select ! axis) (slice pts idx_from idx_to))) rt"
        by (rule spec_r)
    qed
    \<comment> \<open>the step in the words of the claim\<close>
    have len_l: "leaf_count lt = mid - idx_from + 1"
      using spec_leaf_count [OF spec_l] len_sorted mid by simp
    have len_r: "leaf_count rt = idx_to - mid"
      using spec_leaf_count [OF spec_r] len_sorted mid by simp
    have bal: "leaf_count lt = leaf_count rt \<or> leaf_count lt = leaf_count rt + 1"
      unfolding len_l len_r mid_def using lt by presburger
    have "\<exists>l r cells1 cells2 lt' rt'.
        n_left (t_node_data tree6 ! c) = Some l \<and> n_right (t_node_data tree6 ! c) = Some r \<and>
        PBranch sp lt rt = PBranch (n_split (t_node_data tree6 ! c)) lt' rt' \<and>
        layout (t_node_data tree6) (t_points tree6) l cells1 [idx_from..<Suc mid] lt' \<and>
        layout (t_node_data tree6) (t_points tree6) r cells2 [Suc mid..<Suc idx_to] rt' \<and>
        spec_build_subtree (depth + 1)
          (take (mid - idx_from + 1) (qs (func_select ! axis) (slice pts idx_from idx_to))) lt' \<and>
        spec_build_subtree (depth + 1)
          (drop (mid - idx_from + 1) (qs (func_select ! axis) (slice pts idx_from idx_to))) rt' \<and>
        (leaf_count lt' = leaf_count rt' \<or> leaf_count lt' = leaf_count rt' + 1)"
      using node_c6 split_c lay_l lay_r spec_l spec_r bal
      by (intro exI [of _ l] exI [of _ r] exI [of _ "[c + 1..<c3]"] exI [of _ "[c3..<c6]"]
            exI [of _ lt] exI [of _ rt]) simp
    then have step: "branch_step qs idx_from idx_to depth tree c tree6 (PBranch sp lt rt)"
      unfolding branch_step_def Let_def axis_def [symmetric] mid_def [symmetric] pts_def [symmetric]
      using split_c sp' by simp
    have "built qs idx_from idx_to depth tree c tree6 (PBranch sp lt rt)"
      unfolding built_def c_def [symmetric] pts_def [symmetric] nodes_def [symmetric]
      using f6 frame_nodes frame_points lay spec step lt
      by (simp add: c6_def c_def pts_def del: upt_Suc)
    with run show ?thesis by blast
  qed
qed

lemma cache_points_from:
  "i \<le> cnt \<Longrightarrow> cnt \<le> length points \<Longrightarrow> arrays_ok cnt x y z \<Longrightarrow>
   cache_points x y z cnt i points =
     Inr (take i points @ drop i (cached_points x y z cnt) @ drop cnt points)"
proof (induction x y z cnt i points rule: cache_points.induct)
  case (1 x y z cnt i points)
  show ?case
  proof (cases "i < cnt")
    case False
    with "1.prems" show ?thesis
      by (subst cache_points.simps) (simp add: cached_points_def)
  next
    case True
    let ?p = "\<lparr>p_x = x ! i, p_y = y ! i, p_z = z ! i, p_idx = i\<rparr>"
    have inb: "i < length points \<and> i < length x \<and> i < length y \<and> i < length z"
      using True "1.prems" by (simp add: arrays_ok_def)
    have step: "cache_points x y z cnt i points = cache_points x y z cnt (i + 1) (points[i := ?p])"
      using True inb by (subst cache_points.simps) simp
    have ih: "cache_points x y z cnt (i + 1) (points[i := ?p]) =
        Inr (take (i + 1) (points[i := ?p]) @ drop (i + 1) (cached_points x y z cnt) @
             drop cnt (points[i := ?p]))"
      using True inb "1.prems" by (intro "1.IH") simp_all
    have a: "take (i + 1) (points[i := ?p]) = take i points @ [?p]"
      using inb by (simp add: take_Suc_conv_app_nth)
    have b: "drop cnt (points[i := ?p]) = drop cnt points"
      using True by simp
    have "[i..<cnt] = i # [i + 1..<cnt]"
      using True by (simp add: upt_conv_Cons)
    then have c: "drop i (cached_points x y z cnt) = ?p # drop (i + 1) (cached_points x y z cnt)"
      by (simp add: cached_points_def drop_map)
    show ?thesis
      unfolding step ih a b c by simp
  qed
qed

lemma cache_points_all:
  "length points = cnt \<Longrightarrow> arrays_ok cnt x y z \<Longrightarrow>
   cache_points x y z cnt 0 points = Inr (cached_points x y z cnt)"
  using cache_points_from [of 0 cnt points x y z] by simp

lemma length_cached_points [simp]: "length (cached_points x y z cnt) = cnt"
  by (simp add: cached_points_def)

lemma slice_all: "0 < length xs \<Longrightarrow> slice xs 0 (length xs - 1) = xs"
  by (simp add: slice_def)

lemma start_tree_allocated:
  "handle_ok tree_ptr \<Longrightarrow> allocated (start_tree u cnt tree_ptr) \<and> t_count (start_tree u cnt tree_ptr) = cnt"
  by (auto simp: handle_ok_def allocated_def start_tree_def new_tree_def malloc_points_def
      malloc_nodes_def split: option.splits)

lemma kdtree_build_built:
  assumes "qsort_ok qs" "1 < cnt" "arrays_ok cnt x y z" "handle_ok tree_ptr"
  shows "\<exists>node tree' t.
      kdtree_build qs u x y z cnt tree_ptr = Inr (tree'\<lparr>t_root := Some node\<rparr>) \<and>
      built qs 0 (cnt - 1) 0
        ((start_tree u cnt tree_ptr)\<lparr>t_next_node := 0, t_points := cached_points x y z cnt\<rparr>)
        node tree' t"
proof -
  let ?s = "start_tree u cnt tree_ptr"
  let ?t1 = "?s\<lparr>t_next_node := 0, t_points := cached_points x y z cnt\<rparr>"
  have al: "allocated ?s" "t_count ?s = cnt"
    using assms(4) start_tree_allocated by blast+
  have cache: "cache_points x y z cnt 0 (t_points ?s) = Inr (cached_points x y z cnt)"
    using al assms(3) by (intro cache_points_all) (simp add: allocated_def)
  have "\<exists>node tree' t. build_kdtree qs 0 (cnt - 1) 0 ?t1 = Inr (node, tree') \<and>
      built qs 0 (cnt - 1) 0 ?t1 node tree' t"
    using assms(1)
  proof (rule build_kdtree_built)
    show "0 \<le> cnt - 1" by simp
    show "cnt - 1 < length (t_points ?t1)" using assms(2) by simp
    show "t_next_node ?t1 + 2 * (cnt - 1 - 0) + 1 \<le> t_max_nodes ?t1"
      using al by (simp add: allocated_def)
    show "t_max_nodes ?t1 \<le> length (t_node_data ?t1)"
      using al by (simp add: allocated_def)
  qed
  then obtain node tree' t where b: "build_kdtree qs 0 (cnt - 1) 0 ?t1 = Inr (node, tree')"
    "built qs 0 (cnt - 1) 0 ?t1 node tree' t"
    by blast
  have "kdtree_build qs u x y z cnt tree_ptr = Inr (tree'\<lparr>t_root := Some node\<rparr>)"
    using assms(2) cache b(1)
    by (simp add: kdtree_build_def start_tree_def [symmetric] Let_def)
  with b(2) show ?thesis by blast
qed

subsection \<open>Insertion sort meets the contract of qsort\<close>

lemma mset_insert_by: "mset (insert_by cmp a xs) = add_mset a (mset xs)"
  by (induction xs) simp_all

lemma mset_insertion_sort: "mset (insertion_sort cmp xs) = mset xs"
  by (induction xs) (simp_all add: mset_insert_by)

lemma set_insert_by: "set (insert_by cmp a xs) = insert a (set xs)"
  using mset_insert_by [of cmp a xs] by (metis set_mset_add_mset_insert set_mset_mset)

lemma sorted_insert_by:
  fixes f :: "'a \<Rightarrow> 'b::linorder"
  assumes "\<And>a b. cmp a b \<le> 0 \<longleftrightarrow> f a \<le> f b"
  shows "sorted_wrt (\<lambda>a b. cmp a b \<le> 0) xs \<Longrightarrow> sorted_wrt (\<lambda>a b. cmp a b \<le> 0) (insert_by cmp a xs)"
proof (induction xs)
  case Nil
  then show ?case by simp
next
  case (Cons b bs)
  show ?case
  proof (cases "cmp a b \<le> 0")
    case True
    then have "\<forall>c \<in> set bs. cmp a c \<le> 0"
      using Cons.prems assms by (auto intro: order_trans)
    with True Cons.prems show ?thesis by simp
  next
    case False
    then have "cmp b a \<le> 0" using assms by (simp add: linear not_le less_imp_le)
    with False Cons show ?thesis by (auto simp: set_insert_by)
  qed
qed

lemma sorted_insertion_sort:
  fixes f :: "'a \<Rightarrow> 'b::linorder"
  assumes "\<And>a b. cmp a b \<le> 0 \<longleftrightarrow> f a \<le> f b"
  shows "sorted_wrt (\<lambda>a b. cmp a b \<le> 0) (insertion_sort cmp xs)"
  by (induction xs) (simp_all add: sorted_insert_by [OF assms])

lemma qsort_ok_insertion_sort: "qsort_ok insertion_sort"
  unfolding qsort_ok_def
proof (intro ballI allI conjI)
  fix cmp :: cmp_func and xs
  show "mset (insertion_sort cmp xs) = mset xs" by (rule mset_insertion_sort)
  assume "cmp \<in> set func_select"
  then obtain axis where "axis < length func_select" "cmp = func_select ! axis"
    by (metis in_set_conv_nth)
  then have "axis < 3" "cmp = func_select ! axis"
    by (simp_all add: func_select_def)
  then have "\<And>a b. cmp a b \<le> 0 \<longleftrightarrow> coord axis a \<le> coord axis b"
    by (simp add: func_select_le_0)
  then show "sorted_wrt (\<lambda>a b. cmp a b \<le> 0) (insertion_sort cmp xs)"
    by (rule sorted_insertion_sort)
qed

subsection \<open>What kdtree_build returns\<close>

lemma kdtree_build_result:
  assumes "qsort_ok qs" "1 < cnt" "arrays_ok cnt x y z" "handle_ok tree_ptr"
  shows "\<exists>tree t. kdtree_build qs u x y z cnt tree_ptr = Inr tree \<and> build_result x y z cnt tree t"
proof -
  let ?s = "(start_tree u cnt tree_ptr)\<lparr>t_next_node := 0, t_points := cached_points x y z cnt\<rparr>"
  obtain node tree' t where
    run: "kdtree_build qs u x y z cnt tree_ptr = Inr (tree'\<lparr>t_root := Some node\<rparr>)" and
    b: "built qs 0 (cnt - 1) 0 ?s node tree' t"
    using kdtree_build_built [OF assms] by blast
  have al: "allocated (start_tree u cnt tree_ptr)" "t_count (start_tree u cnt tree_ptr) = cnt"
    using assms(4) start_tree_allocated by blast+
  have cnt: "Suc (cnt - 1) = cnt" "2 * (cnt - 1) + 1 = 2 * cnt - 1"
    using assms(2) by simp_all
  have "slice (cached_points x y z cnt) 0 (cnt - 1) = cached_points x y z cnt"
    using slice_all [of "cached_points x y z cnt"] assms(2) by simp
  then have "build_result x y z cnt (tree'\<lparr>t_root := Some node\<rparr>) t"
    unfolding build_result_def
    using builtD [OF b] al cnt by (simp add: allocated_def del: upt_Suc)
  with run show ?thesis by blast
qed

section \<open>The arena after a build\<close>

lemma test_arrays_ok: "arrays_ok 11 test_x test_y test_z"
  by (simp add: arrays_ok_def test_x_def test_y_def test_z_def)

text \<open>
  Claim C5. For every build of \<open>cnt \<ge> 2\<close> points (arrays of at least \<open>cnt\<close> doubles, a
  handle that is NULL or from an earlier build, a \<^verbatim>\<open>qsort\<close> that sorts),
  \<open>kdtree_build\<close> returns a tree and no error: no assertion of \<open>next_node\<close> failed. The
  arena has \<open>t_max_nodes = 2 * cnt - 1\<close> cells, and the cursor, which starts at 0 and
  moves up by one for each node, ends at \<open>2 * cnt - 1\<close>: the builder took exactly
  \<open>2 * cnt - 1\<close> nodes, and the cursor was never beyond the capacity.
\<close>

theorem arena_never_overflows:
  assumes "qsort_ok qs" "1 < cnt" "arrays_ok cnt x y z" "handle_ok tree_ptr"
  shows "\<exists>tree. kdtree_build qs u x y z cnt tree_ptr = Inr tree \<and>
           t_max_nodes tree = 2 * cnt - 1 \<and> length (t_node_data tree) = t_max_nodes tree \<and>
           t_next_node tree = 2 * cnt - 1"
  using kdtree_build_result [OF assms, of u] by (auto simp: build_result_def)

theorem arena_never_overflows_witness:
  "\<exists>tree. kdtree_build insertion_sort zero_mem test_x test_y test_z 11 None = Inr tree \<and>
     t_max_nodes tree = 21 \<and> length (t_node_data tree) = t_max_nodes tree \<and> t_next_node tree = 21"
  using arena_never_overflows [OF qsort_ok_insertion_sort _ test_arrays_ok, of None zero_mem]
  by (simp add: handle_ok_def)

lemma take_as_map_nth: "k \<le> length xs \<Longrightarrow> take k xs = map ((!) xs) [0..<k]"
  by (simp add: list_eq_iff_nth_eq)

lemma cached_points_idx: "map p_idx (cached_points x y z cnt) = [0..<cnt]"
  by (simp add: cached_points_def o_def map_idI)

text \<open>
  Claim C2. After a build of \<open>cnt \<ge> 2\<close> points the \<open>2 * cnt - 1\<close> cells the builder
  took from the arena hold exactly \<open>cnt\<close> leaf nodes and \<open>cnt - 1\<close> branch nodes. Read
  in arena order, the leaves refer to the point cache slots \<open>0, 1, ..., cnt - 1\<close>, each
  once; the original indices stored in those slots are the numbers below \<open>cnt\<close>, each
  once. All \<open>2 * cnt - 1\<close> cells belong to the tree under the root (cell 0), whose
  leaves, from left to right, are those slots.
\<close>

theorem build_node_counts:
  assumes "qsort_ok qs" "1 < cnt" "arrays_ok cnt x y z" "handle_ok tree_ptr"
  shows "\<exists>tree t. kdtree_build qs u x y z cnt tree_ptr = Inr tree \<and>
           t_next_node tree = 2 * cnt - 1 \<and>
           length (filter is_leaf_node (take (t_next_node tree) (t_node_data tree))) = cnt \<and>
           length (filter (\<lambda>n. \<not> is_leaf_node n) (take (t_next_node tree) (t_node_data tree))) = cnt - 1 \<and>
           map n_idx (filter is_leaf_node (take (t_next_node tree) (t_node_data tree))) = [0..<cnt] \<and>
           mset (map (\<lambda>n. p_idx (t_points tree ! n_idx n))
                  (filter is_leaf_node (take (t_next_node tree) (t_node_data tree)))) = mset [0..<cnt] \<and>
           t_root tree = Some 0 \<and>
           layout (t_node_data tree) (t_points tree) 0 [0..<2 * cnt - 1] [0..<cnt] t"
proof -
  obtain tree t where run: "kdtree_build qs u x y z cnt tree_ptr = Inr tree"
    and r: "build_result x y z cnt tree t"
    using kdtree_build_result [OF assms] by blast
  let ?nodes = "t_node_data tree" and ?points = "t_points tree"
  let ?used = "take (t_next_node tree) ?nodes"
  have lay: "layout ?nodes ?points 0 [0..<2 * cnt - 1] [0..<cnt] t"
    and spec: "spec_build_subtree 0 (cached_points x y z cnt) t"
    and f: "t_next_node tree = 2 * cnt - 1" "length ?nodes = 2 * cnt - 1" "length ?points = cnt"
      "t_root tree = Some 0"
    using r by (simp_all add: build_result_def)
  have used: "?used = map ((!) ?nodes) [0..<2 * cnt - 1]"
    using take_as_map_nth [of "2 * cnt - 1" ?nodes] f by simp
  have slots: "map n_idx (filter is_leaf_node ?used) = [0..<cnt]"
    unfolding used by (rule layout_cells_leaves [OF lay])
  then have leaves: "length (filter is_leaf_node ?used) = cnt"
    by (metis length_map length_upt diff_zero)
  have "branch_count t + 1 = cnt"
    using branch_count_leaf_count [of t] spec_leaf_count [OF spec] by simp
  then have branches: "length (filter (\<lambda>n. \<not> is_leaf_node n) ?used) = cnt - 1"
    unfolding used using layout_cells_branches [OF lay] by simp
  have "map (\<lambda>n. p_idx (?points ! n_idx n)) (filter is_leaf_node ?used) =
      map (\<lambda>s. p_idx (?points ! s)) (map n_idx (filter is_leaf_node ?used))"
    by (simp add: o_def)
  also have "\<dots> = map p_idx (p_leaves t)"
    unfolding slots layout_leaves [OF lay] by (simp add: o_def)
  finally have "mset (map (\<lambda>n. p_idx (?points ! n_idx n)) (filter is_leaf_node ?used)) =
      image_mset p_idx (mset (p_leaves t))"
    by simp
  also have "\<dots> = mset (map p_idx (cached_points x y z cnt))"
    unfolding spec_leaves_mset [OF spec] by simp
  finally have idx: "mset (map (\<lambda>n. p_idx (?points ! n_idx n)) (filter is_leaf_node ?used)) =
      mset [0..<cnt]"
    unfolding cached_points_idx .
  show ?thesis
    using run f leaves branches slots idx lay by blast
qed

theorem build_node_counts_witness:
  "\<exists>tree t. kdtree_build insertion_sort zero_mem test_x test_y test_z 11 None = Inr tree \<and>
     t_next_node tree = 21 \<and>
     length (filter is_leaf_node (take (t_next_node tree) (t_node_data tree))) = 11 \<and>
     length (filter (\<lambda>n. \<not> is_leaf_node n) (take (t_next_node tree) (t_node_data tree))) = 10 \<and>
     map n_idx (filter is_leaf_node (take (t_next_node tree) (t_node_data tree))) = [0..<11] \<and>
     mset (map (\<lambda>n. p_idx (t_points tree ! n_idx n))
            (filter is_leaf_node (take (t_next_node tree) (t_node_data tree)))) = mset [0..<11] \<and>
     t_root tree = Some 0 \<and>
     layout (t_node_data tree) (t_points tree) 0 [0..<21] [0..<11] t"
  using build_node_counts [OF qsort_ok_insertion_sort _ test_arrays_ok, of None zero_mem]
  by (simp add: handle_ok_def del: upt_Suc)

section \<open>The builder and the specification\<close>

lemma slice_as_map: "hi < length xs \<Longrightarrow> lo \<le> hi \<Longrightarrow> slice xs lo hi = map ((!) xs) [lo..<Suc hi]"
  by (auto simp: slice_def list_eq_iff_nth_eq simp del: upt_Suc)

text \<open>
  Claim C3. Let \<open>[idx_from, idx_to]\<close> be a sub-range of the point cache, \<open>depth\<close> any
  depth, and let the arena have room for the \<open>2 * (idx_to - idx_from) + 1\<close> nodes of the
  sub-range. Then \<open>build_kdtree\<close> returns a node, and the tree \<open>t\<close> under that node
  \<^item> lies in the arena cells from the old cursor to the new one, with its leaves at the
    slots \<open>idx_from, ..., idx_to\<close> from left to right;
  \<^item> is a tree that \<open>build_subtree\<close> of the specification allows for the points of the
    sub-range at that depth (axis \<open>depth mod 3\<close>, full sort by the axis coordinate, lower
    median \<open>mid\<close>, split value the axis coordinate of the sorted element at \<open>mid\<close>,
    children built from the elements up to \<open>mid\<close> and after \<open>mid\<close> at \<open>depth + 1\<close>);
  \<^item> is balanced: at every branch the left subtree has as many leaves as the right one
    or one more;
  \<^item> for one point is a leaf that refers to the slot (\<open>leaf_step\<close>), and for more points
    is a branch whose split value and children are as \<open>branch_step\<close> says, with the
    sub-range as \<^verbatim>\<open>qsort\<close> left it.
  The sort is in place: the sub-range of the cache holds the same points as before, and
  the cache outside the sub-range is as it was.
\<close>

theorem builder_follows_spec:
  assumes "qsort_ok qs" "idx_from \<le> idx_to" "idx_to < length (t_points tree)"
    "t_next_node tree + 2 * (idx_to - idx_from) + 1 \<le> t_max_nodes tree"
    "t_max_nodes tree \<le> length (t_node_data tree)"
  shows "\<exists>node tree' t.
      build_kdtree qs idx_from idx_to depth tree = Inr (node, tree') \<and>
      layout (t_node_data tree') (t_points tree') node
        [t_next_node tree..<t_next_node tree'] [idx_from..<Suc idx_to] t \<and>
      spec_build_subtree depth (slice (t_points tree) idx_from idx_to) t \<and>
      balanced t \<and>
      (idx_from = idx_to \<longrightarrow> leaf_step idx_from tree node tree' t) \<and>
      (idx_from < idx_to \<longrightarrow> branch_step qs idx_from idx_to depth tree node tree' t) \<and>
      mset (slice (t_points tree') idx_from idx_to) = mset (slice (t_points tree) idx_from idx_to) \<and>
      (\<forall>i. i < idx_from \<or> idx_to < i \<longrightarrow> t_points tree' ! i = t_points tree ! i)"
proof -
  obtain node tree' t where run: "build_kdtree qs idx_from idx_to depth tree = Inr (node, tree')"
    and b: "built qs idx_from idx_to depth tree node tree' t"
    using build_kdtree_built [OF assms] by blast
  note lay = builtD(10) [OF b] and spec = builtD(11) [OF b]
  have "slice (t_points tree') idx_from idx_to = map ((!) (t_points tree')) [idx_from..<Suc idx_to]"
    using assms(2,3) builtD(7) [OF b] by (intro slice_as_map) simp_all
  also have "\<dots> = p_leaves t"
    using layout_leaves [OF lay] by simp
  finally have "mset (slice (t_points tree') idx_from idx_to) = mset (slice (t_points tree) idx_from idx_to)"
    using spec_leaves_mset [OF spec] by simp
  moreover have "balanced t"
    using spec by (rule spec_balanced)
  ultimately show ?thesis
    using run lay spec builtD(9,12,13) [OF b] by blast
qed

theorem builder_follows_spec_witness:
  "\<exists>node tree' t.
      build_kdtree insertion_sort 0 10 0 test_tree = Inr (node, tree') \<and>
      layout (t_node_data tree') (t_points tree') node [0..<t_next_node tree'] [0..<11] t \<and>
      spec_build_subtree 0 (slice (t_points test_tree) 0 10) t \<and>
      balanced t \<and>
      branch_step insertion_sort 0 10 0 test_tree node tree' t \<and>
      mset (slice (t_points tree') 0 10) = mset (slice (t_points test_tree) 0 10)"
proof -
  have "\<exists>node tree' t.
      build_kdtree insertion_sort 0 10 0 test_tree = Inr (node, tree') \<and>
      layout (t_node_data tree') (t_points tree') node
        [t_next_node test_tree..<t_next_node tree'] [0..<Suc 10] t \<and>
      spec_build_subtree 0 (slice (t_points test_tree) 0 10) t \<and>
      balanced t \<and>
      ((0::nat) = 10 \<longrightarrow> leaf_step 0 test_tree node tree' t) \<and>
      ((0::nat) < 10 \<longrightarrow> branch_step insertion_sort 0 10 0 test_tree node tree' t) \<and>
      mset (slice (t_points tree') 0 10) = mset (slice (t_points test_tree) 0 10) \<and>
      (\<forall>i. i < 0 \<or> 10 < i \<longrightarrow> t_points tree' ! i = t_points test_tree ! i)"
    by (rule builder_follows_spec [OF qsort_ok_insertion_sort])
       (simp_all add: test_tree_def malloc_nodes_def)
  then obtain node tree' t where
      "build_kdtree insertion_sort 0 10 0 test_tree = Inr (node, tree')"
      "layout (t_node_data tree') (t_points tree') node
        [t_next_node test_tree..<t_next_node tree'] [0..<Suc 10] t"
      "spec_build_subtree 0 (slice (t_points test_tree) 0 10) t"
      "balanced t"
      "branch_step insertion_sort 0 10 0 test_tree node tree' t"
      "mset (slice (t_points tree') 0 10) = mset (slice (t_points test_tree) 0 10)"
    by auto
  moreover have "t_next_node test_tree = 0" "Suc 10 = 11"
    by (simp_all add: test_tree_def)
  ultimately show ?thesis by (metis (no_types))
qed

subsection \<open>Pushing into the iterator\<close>

lemma iterator_push_ok:
  assumes "iterator_ok iter"
  shows "iterator_ok (iterator_push u iter v)"
    and "contents (iterator_push u iter v) = contents iter @ [v]"
    and "i_current (iterator_push u iter v) = i_current iter"
proof -
  have g: "1 < KDTREE_ITERATOR_GROWTH_RATIO" by (rule growth_ratio_gt_1)
  show "iterator_ok (iterator_push u iter v)"
    using assms g
    by (auto simp: iterator_ok_def iterator_push_def Let_def realloc_indices_def
        KDTREE_ITERATOR_GROWTH_RATIO_def)
  show "contents (iterator_push u iter v) = contents iter @ [v]"
    using assms g
    by (auto simp: iterator_ok_def iterator_push_def Let_def realloc_indices_def contents_def
        KDTREE_ITERATOR_GROWTH_RATIO_def take_Suc_conv_app_nth nth_append)
  show "i_current (iterator_push u iter v) = i_current iter"
    by (simp add: iterator_push_def Let_def)
qed

lemma push_all_ok:
  "iterator_ok iter \<Longrightarrow>
   iterator_ok (push_all u iter vs) \<and> contents (push_all u iter vs) = contents iter @ vs \<and>
   i_current (push_all u iter vs) = i_current iter"
  unfolding push_all_def
  by (induction vs arbitrary: iter) (simp_all add: iterator_push_ok)

lemma push_all_Nil [simp]: "push_all u iter [] = iter"
  by (simp add: push_all_def)

lemma push_all_single: "push_all u iter [v] = iterator_push u iter v"
  by (simp add: push_all_def)

lemma push_all_append: "push_all u (push_all u iter vs) ws = push_all u iter (vs @ ws)"
  by (simp add: push_all_def)

lemma start_iterator_ok:
  "iterator_handle_ok iter_ptr \<Longrightarrow>
   iterator_ok (start_iterator u iter_ptr) \<and> contents (start_iterator u iter_ptr) = []"
  by (auto simp: iterator_handle_ok_def start_iterator_def iterator_ok_def iterator_reset_def
      iterator_new_def contents_def malloc_indices_def KDTREE_ITERATOR_INITIAL_SIZE_def
      split: option.splits)

subsection \<open>The traversals follow the layout\<close>

lemma report_all_leaves_layout:
  assumes "layout nodes points p cells slots t"
    and "nodes = t_node_data tree" "points = t_points tree"
  shows "report_all_leaves u tree (Some p) iter =
         Some (Inr (push_all u iter (map p_idx (p_leaves t))))"
  using assms
proof (induction arbitrary: iter rule: layout.induct)
  case (leaf p nodes points)
  then show ?case
    by (subst report_all_leaves.simps) (simp add: push_all_single)
next
  case (branch p nodes l r points cells1 slots1 lt cells2 slots2 rt)
  have nl: "\<not> is_leaf_node (t_node_data tree ! p)"
    using branch.hyps(2) branch.prems by (simp add: is_leaf_node_def)
  have "report_all_leaves u tree (Some p) iter =
      Option.bind (report_all_leaves u tree (Some l) iter)
        (\<lambda>r'. case r' of Inl e \<Rightarrow> Some (Inl e)
             | Inr iter1 \<Rightarrow> report_all_leaves u tree (Some r) iter1)"
    using branch.hyps(1-3) branch.prems nl
    by (subst report_all_leaves.simps) simp
  also have "\<dots> = report_all_leaves u tree (Some r) (push_all u iter (map p_idx (p_leaves lt)))"
    using branch.IH(1) [OF branch.prems] by simp
  also have "\<dots> = Some (Inr (push_all u (push_all u iter (map p_idx (p_leaves lt)))
      (map p_idx (p_leaves rt))))"
    using branch.IH(2) [OF branch.prems] by simp
  finally show ?case by (simp add: push_all_append)
qed

lemma explore_search_layout:
  assumes "layout nodes points p cells slots t"
    and "nodes = t_node_data tree" "points = t_points tree"
  shows "explore_branch
           (\<lambda>node depth domain iter. search_kdtree u tree node depth search_space domain iter)
           u tree (Some p) depth search_space domain iter =
         Some (Inr (push_all u iter (explore_tree search_space depth domain t)))"
  using assms
proof (induction arbitrary: depth domain iter rule: layout.induct)
  case (leaf p nodes points)
  then show ?case
    by (simp add: explore_branch_def push_all_single)
next
  case (branch p nodes l r points cells1 slots1 lt cells2 slots2 rt)
  let ?S = "\<lambda>node depth domain iter. search_kdtree u tree node depth search_space domain iter"
  let ?t = "PBranch (n_split (nodes ! p)) lt rt"
  have nl: "\<not> is_leaf_node (t_node_data tree ! p)"
    using branch.hyps(2) branch.prems by (simp add: is_leaf_node_def)
  have p: "p < length (t_node_data tree)"
    using branch.hyps(1) branch.prems by simp
  have lay: "layout (t_node_data tree) (t_points tree) p (p # cells1 @ cells2) (slots1 @ slots2) ?t"
    using layout.branch [OF branch.hyps(1-5)] branch.prems by simp
  have search: "search_kdtree u tree (Some p) d search_space dom it =
      Some (Inr (push_all u it (search_tree search_space d dom ?t)))" for d dom it
  proof -
    let ?axis = "d mod NDIMS"
    let ?d1 = "dim_max_update ?axis (n_split (nodes ! p)) dom"
    let ?d3 = "dim_min_update ?axis (n_split (nodes ! p))
        (dim_max_update ?axis (b_max (s_dim dom ! ?axis)) ?d1)"
    have "search_kdtree u tree (Some p) d search_space dom it =
        Option.bind (explore_branch ?S u tree (Some l) d search_space ?d1 it)
          (\<lambda>r'. case r' of Inl e \<Rightarrow> Some (Inl e)
               | Inr iter1 \<Rightarrow> explore_branch ?S u tree (Some r) d search_space ?d3 iter1)"
      using p branch.hyps(2,3) branch.prems
      by (subst search_kdtree.simps) (simp add: Let_def)
    also have "\<dots> = explore_branch ?S u tree (Some r) d search_space ?d3
        (push_all u it (explore_tree search_space d ?d1 lt))"
      using branch.IH(1) [OF branch.prems] by simp
    also have "\<dots> = Some (Inr (push_all u (push_all u it (explore_tree search_space d ?d1 lt))
        (explore_tree search_space d ?d3 rt)))"
      using branch.IH(2) [OF branch.prems] by simp
    finally show ?thesis
      by (simp add: push_all_append Let_def)
  qed
  show ?case
  proof (cases "search_area_intersects search_space domain")
    case False
    with p nl show ?thesis by (simp add: explore_branch_def)
  next
    case True
    show ?thesis
    proof (cases "completely_enclosed search_space domain")
      case True
      with \<open>search_area_intersects search_space domain\<close> p nl
        report_all_leaves_layout [OF lay refl refl, of u iter]
      show ?thesis by (simp add: explore_branch_def)
    next
      case False
      with \<open>search_area_intersects search_space domain\<close> p nl
        search [of "depth + 1" domain iter]
      show ?thesis by (simp add: explore_branch_def Let_def)
    qed
  qed
qed

lemma search_kdtree_layout:
  assumes "layout (t_node_data tree) (t_points tree) p cells slots (PBranch s l r)"
  shows "search_kdtree u tree (Some p) depth search_space domain iter =
         Some (Inr (push_all u iter (search_tree search_space depth domain (PBranch s l r))))"
  using assms
proof (cases rule: layout.cases)
  case (branch lp rp cells1 slots1 cells2 slots2)
  let ?S = "\<lambda>node depth domain iter. search_kdtree u tree node depth search_space domain iter"
  let ?axis = "depth mod NDIMS"
  let ?d1 = "dim_max_update ?axis s domain"
  let ?d3 = "dim_min_update ?axis s (dim_max_update ?axis (b_max (s_dim domain ! ?axis)) ?d1)"
  have "search_kdtree u tree (Some p) depth search_space domain iter =
      Option.bind (explore_branch ?S u tree (Some lp) depth search_space ?d1 iter)
        (\<lambda>r'. case r' of Inl e \<Rightarrow> Some (Inl e)
             | Inr iter1 \<Rightarrow> explore_branch ?S u tree (Some rp) depth search_space ?d3 iter1)"
    using branch by (subst search_kdtree.simps) (simp add: Let_def)
  also have "\<dots> = Some (Inr (push_all u (push_all u iter (explore_tree search_space depth ?d1 l))
      (explore_tree search_space depth ?d3 r)))"
    using explore_search_layout [OF branch(7) refl refl] explore_search_layout [OF branch(8) refl refl]
    by simp
  finally show ?thesis
    by (simp add: push_all_append Let_def)
qed

lemma enclosed_point:
  "completely_enclosed search_space domain \<Longrightarrow> point_in_search_space p domain \<Longrightarrow>
   point_in_search_space p search_space"
  unfolding completely_enclosed_def point_in_search_space_def
  by (meson order_trans)

lemma disjoint_point:
  "\<not> search_area_intersects search_space domain \<Longrightarrow> point_in_search_space p domain \<Longrightarrow>
   \<not> point_in_search_space p search_space"
  unfolding search_area_intersects_def point_in_search_space_def
  by (meson leD order_trans)

lemma length_dim_update [simp]:
  "length (s_dim (dim_max_update axis v sp)) = length (s_dim sp)"
  "length (s_dim (dim_min_update axis v sp)) = length (s_dim sp)"
  by (simp_all add: dim_max_update_def dim_min_update_def)

lemma right_domain:
  "axis < length (s_dim domain) \<Longrightarrow>
   dim_min_update axis v
     (dim_max_update axis (b_max (s_dim domain ! axis)) (dim_max_update axis w domain)) =
   dim_min_update axis v domain"
  by (simp add: dim_max_update_def dim_min_update_def list_update_same_conv)

lemma axis_cases: "axis < 3 \<Longrightarrow> axis = 0 \<or> axis = 1 \<or> axis = (2::nat)"
  by linarith

lemma point_in_left_domain:
  assumes "length (s_dim domain) = 3" "axis < 3"
    "point_in_search_space p domain" "coord axis p \<le> v"
  shows "point_in_search_space p (dim_max_update axis v domain)"
  using axis_cases [OF assms(2)] assms(1,3,4)
  by (auto simp: point_in_search_space_def dim_max_update_def coord_def)

lemma point_in_right_domain:
  assumes "length (s_dim domain) = 3" "axis < 3"
    "point_in_search_space p domain" "v \<le> coord axis p"
  shows "point_in_search_space p (dim_min_update axis v domain)"
  using axis_cases [OF assms(2)] assms(1,3,4)
  by (auto simp: point_in_search_space_def dim_min_update_def coord_def)

subsection \<open>The search on a partitioned tree\<close>

lemma explore_tree_filter:
  "length (s_dim domain) = 3 \<Longrightarrow> partitioned (depth + 1) t \<Longrightarrow>
   \<forall>p \<in> set (p_leaves t). point_in_search_space p domain \<Longrightarrow>
   explore_tree search_space depth domain t =
     map p_idx (filter (\<lambda>p. point_in_search_space p search_space) (p_leaves t))"
proof (induction t arbitrary: depth domain)
  case (PLeaf p)
  then show ?case by simp
next
  case (PBranch s l r)
  let ?in = "\<lambda>p. point_in_search_space p search_space"
  let ?axis = "(depth + 1) mod 3"
  let ?d1 = "dim_max_update ?axis s domain"
  let ?d3 = "dim_min_update ?axis s domain"
  have axis: "?axis < 3" by simp
  show ?case
  proof (cases "search_area_intersects search_space domain")
    case False
    then have "\<forall>p \<in> set (p_leaves (PBranch s l r)). \<not> ?in p"
      using PBranch.prems(3) disjoint_point by blast
    then have "filter ?in (p_leaves (PBranch s l r)) = []"
      by (simp only: filter_False)
    with False show ?thesis by simp
  next
    case inter: True
    show ?thesis
    proof (cases "completely_enclosed search_space domain")
      case True
      then have "\<forall>p \<in> set (p_leaves (PBranch s l r)). ?in p"
        using PBranch.prems(3) enclosed_point by blast
      then have "filter ?in (p_leaves (PBranch s l r)) = p_leaves (PBranch s l r)"
        by (simp only: filter_True)
      with inter True show ?thesis by simp
    next
      case False
      have l: "explore_tree search_space (depth + 1) ?d1 l = map p_idx (filter ?in (p_leaves l))"
      proof (rule PBranch.IH(1))
        show "length (s_dim ?d1) = 3" using PBranch.prems(1) by simp
        show "partitioned (depth + 1 + 1) l" using PBranch.prems(2) by simp
        show "\<forall>p \<in> set (p_leaves l). point_in_search_space p ?d1"
          using PBranch.prems axis by (auto intro!: point_in_left_domain)
      qed
      have r: "explore_tree search_space (depth + 1) ?d3 r = map p_idx (filter ?in (p_leaves r))"
      proof (rule PBranch.IH(2))
        show "length (s_dim ?d3) = 3" using PBranch.prems(1) by simp
        show "partitioned (depth + 1 + 1) r" using PBranch.prems(2) by simp
        show "\<forall>p \<in> set (p_leaves r). point_in_search_space p ?d3"
          using PBranch.prems axis by (auto intro!: point_in_right_domain)
      qed
      have "explore_tree search_space depth domain (PBranch s l r) =
          explore_tree search_space (depth + 1) ?d1 l @ explore_tree search_space (depth + 1) ?d3 r"
        using inter False PBranch.prems(1) axis
        by (simp add: Let_def NDIMS_def right_domain)
      then show ?thesis using l r by simp
    qed
  qed
qed

lemma search_tree_filter:
  assumes "length (s_dim domain) = 3" "partitioned depth (PBranch s l r)"
    "\<forall>p \<in> set (p_leaves (PBranch s l r)). point_in_search_space p domain"
  shows "search_tree search_space depth domain (PBranch s l r) =
     map p_idx (filter (\<lambda>p. point_in_search_space p search_space) (p_leaves (PBranch s l r)))"
proof -
  let ?in = "\<lambda>p. point_in_search_space p search_space"
  let ?axis = "depth mod 3"
  let ?d1 = "dim_max_update ?axis s domain"
  let ?d3 = "dim_min_update ?axis s domain"
  have axis: "?axis < 3" by simp
  have l: "explore_tree search_space depth ?d1 l = map p_idx (filter ?in (p_leaves l))"
  proof (rule explore_tree_filter)
    show "length (s_dim ?d1) = 3" using assms(1) by simp
    show "partitioned (depth + 1) l" using assms(2) by simp
    show "\<forall>p \<in> set (p_leaves l). point_in_search_space p ?d1"
      using assms axis by (auto intro!: point_in_left_domain)
  qed
  have r: "explore_tree search_space depth ?d3 r = map p_idx (filter ?in (p_leaves r))"
  proof (rule explore_tree_filter)
    show "length (s_dim ?d3) = 3" using assms(1) by simp
    show "partitioned (depth + 1) r" using assms(2) by simp
    show "\<forall>p \<in> set (p_leaves r). point_in_search_space p ?d3"
      using assms axis by (auto intro!: point_in_right_domain)
  qed
  have "search_tree search_space depth domain (PBranch s l r) =
      explore_tree search_space depth ?d1 l @ explore_tree search_space depth ?d3 r"
    using assms(1) axis by (simp add: Let_def NDIMS_def right_domain)
  then show ?thesis using l r by simp
qed

lemma build_result_branch:
  assumes "build_result x y z cnt tree t" "1 < cnt"
  obtains s l r where "t = PBranch s l r"
proof (cases t)
  case (PLeaf p)
  have "leaf_count t = cnt"
    using assms(1) spec_leaf_count [of 0 "cached_points x y z cnt" t]
    by (simp add: build_result_def)
  with PLeaf assms(2) show ?thesis by simp
next
  case (PBranch s l r)
  then show ?thesis by (rule that)
qed

lemma kdtree_search_space_tree:
  assumes "build_result x y z cnt tree t" "1 < cnt"
  shows "kdtree_search_space u (Some tree) iter_ptr x_min x_max y_min y_max z_min z_max =
     Some (Inr (push_all u (start_iterator u iter_ptr)
                  (search_tree (box x_min x_max y_min y_max z_min z_max) 0 initial_domain t)))"
proof -
  obtain s l r where t: "t = PBranch s l r"
    using assms by (rule build_result_branch)
  have root: "t_root tree = Some 0"
    and lay: "layout (t_node_data tree) (t_points tree) 0 [0..<2 * cnt - 1] [0..<cnt] (PBranch s l r)"
    using assms(1) t by (simp_all add: build_result_def)
  have "0 < length (t_node_data tree)" "\<not> is_leaf_node (t_node_data tree ! 0)"
    using layout_root [OF lay] layout_branch_not_leaf [OF lay] by simp_all
  then show ?thesis
    using root search_kdtree_layout [OF lay]
    by (simp add: kdtree_search_space_def start_iterator_def t Let_def del: search_tree.simps)
qed

lemma cached_point_in_box:
  "i < cnt \<Longrightarrow>
   point_in_search_space (cached_points x y z cnt ! i) (box x_min x_max y_min y_max z_min z_max) \<longleftrightarrow>
     x_min \<le> x ! i \<and> x ! i \<le> x_max \<and> y_min \<le> y ! i \<and> y ! i \<le> y_max \<and>
     z_min \<le> z ! i \<and> z ! i \<le> z_max"
  by (auto simp: point_in_search_space_def box_def cached_points_def)

lemma cached_point_idx: "i < cnt \<Longrightarrow> p_idx (cached_points x y z cnt ! i) = i"
  by (simp add: cached_points_def)

lemma initial_domain_box: "initial_domain = box (- DBL_MAX) DBL_MAX (- DBL_MAX) DBL_MAX (- DBL_MAX) DBL_MAX"
  by (simp add: initial_domain_def box_def)

lemma finite_points_in_initial_domain:
  assumes "finite_points cnt x y z" "p \<in> set (cached_points x y z cnt)"
  shows "point_in_search_space p initial_domain"
proof -
  obtain i where i: "i < cnt" "p = cached_points x y z cnt ! i"
    using assms(2) by (auto simp: in_set_conv_nth)
  then show ?thesis
    using assms(1) cached_point_in_box [of i cnt x y z]
    by (simp add: initial_domain_box finite_points_def finite_double_def)
qed

lemma filtered_indices:
  assumes "mset leaves = mset (cached_points x y z cnt)"
  shows "set (map p_idx (filter (\<lambda>p. point_in_search_space p
            (box x_min x_max y_min y_max z_min z_max)) leaves)) =
         box_indices cnt x y z x_min x_max y_min y_max z_min z_max"
    and "distinct (map p_idx (filter (\<lambda>p. point_in_search_space p
            (box x_min x_max y_min y_max z_min z_max)) leaves))"
proof -
  let ?in = "\<lambda>p. point_in_search_space p (box x_min x_max y_min y_max z_min z_max)"
  let ?c = "cached_points x y z cnt"
  have set_eq: "set leaves = set ?c"
    using assms by (metis set_mset_mset)
  have "set (map p_idx (filter ?in leaves)) = p_idx ` {p \<in> set ?c. ?in p}"
    using set_eq by auto
  also have "\<dots> = box_indices cnt x y z x_min x_max y_min y_max z_min z_max"
  proof (intro set_eqI iffI)
    fix i
    assume "i \<in> p_idx ` {p \<in> set ?c. ?in p}"
    then obtain k where "k < cnt" "?in (?c ! k)" "i = p_idx (?c ! k)"
      by (auto simp: in_set_conv_nth)
    then show "i \<in> box_indices cnt x y z x_min x_max y_min y_max z_min z_max"
      using cached_point_in_box [of k cnt x y z] cached_point_idx [of k cnt x y z]
      by (simp add: box_indices_def)
  next
    fix i
    assume "i \<in> box_indices cnt x y z x_min x_max y_min y_max z_min z_max"
    then have i: "i < cnt" "?in (?c ! i)"
      using cached_point_in_box [of i cnt x y z] by (simp_all add: box_indices_def)
    then have "?c ! i \<in> {p \<in> set ?c. ?in p}" by simp
    then show "i \<in> p_idx ` {p \<in> set ?c. ?in p}"
      using cached_point_idx [OF i(1), of x y z] by (metis imageI)
  qed
  finally show "set (map p_idx (filter ?in leaves)) =
      box_indices cnt x y z x_min x_max y_min y_max z_min z_max" .
  have "mset (map p_idx leaves) = mset [0..<cnt]"
    using assms cached_points_idx [of x y z cnt] by (metis mset_map)
  then have "distinct (map p_idx leaves)"
    by (metis distinct_upt mset_eq_imp_distinct_iff)
  then show "distinct (map p_idx (filter ?in leaves))"
    by (rule distinct_map_filter)
qed

text \<open>
  A tree that \<open>kdtree_build\<close> returned for points with finite coordinates, searched
  with any box: the iterator receives the original indices of the leaves whose point is
  inside the box, from left to right.
\<close>

lemma search_built_tree:
  assumes "build_result x y z cnt tree t" "1 < cnt" "finite_points cnt x y z"
  shows "kdtree_search_space u (Some tree) iter_ptr x_min x_max y_min y_max z_min z_max =
     Some (Inr (push_all u (start_iterator u iter_ptr)
       (map p_idx (filter (\<lambda>p. point_in_search_space p (box x_min x_max y_min y_max z_min z_max))
          (p_leaves t)))))"
proof -
  obtain s l r where t: "t = PBranch s l r"
    using assms(1,2) by (rule build_result_branch)
  have spec: "spec_build_subtree 0 (cached_points x y z cnt) t"
    using assms(1) by (simp add: build_result_def)
  have "search_tree (box x_min x_max y_min y_max z_min z_max) 0 initial_domain (PBranch s l r) =
      map p_idx (filter (\<lambda>p. point_in_search_space p (box x_min x_max y_min y_max z_min z_max))
        (p_leaves (PBranch s l r)))"
  proof (rule search_tree_filter)
    show "length (s_dim initial_domain) = 3" by (simp add: initial_domain_def)
    show "partitioned 0 (PBranch s l r)"
      using spec_partitioned [OF spec] t by simp
    show "\<forall>p \<in> set (p_leaves (PBranch s l r)). point_in_search_space p initial_domain"
      using spec_leaves_mset [OF spec] finite_points_in_initial_domain [OF assms(3)] t
      by (metis set_mset_mset)
  qed
  then show ?thesis
    using kdtree_search_space_tree [OF assms(1,2)] t by simp
qed

lemma test_points_finite: "finite_points 11 test_x test_y test_z"
proof -
  have "\<forall>d \<in> set test_x \<union> set test_y \<union> set test_z. finite_double d"
    by (auto simp: test_x_def test_y_def test_z_def intro!: finite_double_unit)
  moreover have "length test_x = 11" "length test_y = 11" "length test_z = 11"
    by (simp_all add: test_x_def test_y_def test_z_def)
  ultimately show ?thesis
    unfolding finite_points_def by (metis UnI1 UnI2 nth_mem)
qed

lemma test_points_in_unit_box:
  "box_indices 11 test_x test_y test_z (Fin 0) (Fin 1) (Fin 0) (Fin 1) (Fin 0) (Fin 1) = {0..<11}"
proof -
  have "\<forall>d \<in> set test_x \<union> set test_y \<union> set test_z. Fin 0 \<le> d \<and> d \<le> Fin 1"
    by (auto simp: test_x_def test_y_def test_z_def)
  moreover have "length test_x = 11" "length test_y = 11" "length test_z = 11"
    by (simp_all add: test_x_def test_y_def test_z_def)
  ultimately have "\<forall>i<11. Fin 0 \<le> test_x ! i \<and> test_x ! i \<le> Fin 1 \<and>
      Fin 0 \<le> test_y ! i \<and> test_y ! i \<le> Fin 1 \<and> Fin 0 \<le> test_z ! i \<and> test_z ! i \<le> Fin 1"
    by (metis UnI1 UnI2 nth_mem)
  then show ?thesis
    by (auto simp: box_indices_def)
qed

lemma search_finite_points:
  assumes "qsort_ok qs" "1 < cnt" "arrays_ok cnt x y z" "handle_ok tree_ptr"
    "iterator_handle_ok iter_ptr" "finite_points cnt x y z"
  shows "\<exists>tree iter.
      kdtree_build qs u x y z cnt tree_ptr = Inr tree \<and>
      kdtree_search_space u' (Some tree) iter_ptr x_min x_max y_min y_max z_min z_max =
        Some (Inr iter) \<and>
      set (contents iter) = box_indices cnt x y z x_min x_max y_min y_max z_min z_max \<and>
      distinct (contents iter)"
proof -
  obtain tree t where run: "kdtree_build qs u x y z cnt tree_ptr = Inr tree"
    and r: "build_result x y z cnt tree t"
    using kdtree_build_result [OF assms(1-4)] by blast
  let ?vs = "map p_idx (filter (\<lambda>p. point_in_search_space p
      (box x_min x_max y_min y_max z_min z_max)) (p_leaves t))"
  let ?iter = "push_all u' (start_iterator u' iter_ptr) ?vs"
  have search: "kdtree_search_space u' (Some tree) iter_ptr x_min x_max y_min y_max z_min z_max =
      Some (Inr ?iter)"
    using r assms(2,6) by (rule search_built_tree)
  have "contents ?iter = ?vs"
    using push_all_ok [of "start_iterator u' iter_ptr" u' ?vs] start_iterator_ok [OF assms(5), of u']
    by simp
  moreover have "mset (p_leaves t) = mset (cached_points x y z cnt)"
    using r by (intro spec_leaves_mset [of 0]) (simp add: build_result_def)
  ultimately have "set (contents ?iter) = box_indices cnt x y z x_min x_max y_min y_max z_min z_max"
    "distinct (contents ?iter)"
    using filtered_indices [of "p_leaves t" x y z cnt x_min x_max y_min y_max z_min z_max]
    by simp_all
  with run search show ?thesis by blast
qed

text \<open>
  The third scenario of \<^verbatim>\<open>run_test.c\<close>: eleven points, the cube of centre
  \<open>(0.5, 0.5, 0.5)\<close> and apothem \<open>0.5\<close>, that is the box \<open>[0, 1]\<close> on each axis, which
  touches the eight corner points. All eleven indices are returned.
\<close>

lemma search_unit_cube:
  "\<exists>tree iter.
      kdtree_build insertion_sort zero_mem test_x test_y test_z 11 None = Inr tree \<and>
      kdtree_search_space zero_mem (Some tree) None (Fin 0) (Fin 1) (Fin 0) (Fin 1) (Fin 0) (Fin 1) =
        Some (Inr iter) \<and>
      set (contents iter) = {0..<11} \<and> distinct (contents iter)"
  using search_finite_points [OF qsort_ok_insertion_sort _ test_arrays_ok _ _ test_points_finite,
      of None None zero_mem zero_mem "Fin 0" "Fin 1" "Fin 0" "Fin 1" "Fin 0" "Fin 1"]
  by (simp add: handle_ok_def iterator_handle_ok_def test_points_in_unit_box)

lemma inf_build: "kdtree_build insertion_sort zero_mem inf_x inf_y inf_z 3 None = Inr inf_tree"
  by code_simp

lemmas search_eval =
  kdtree_search_space_def is_leaf_node_def search_kdtree.simps
  explore_branch_def report_all_leaves.simps initial_domain_def box_def NDIMS_def
  dim_max_update_def dim_min_update_def search_area_intersects_def completely_enclosed_def
  point_in_search_space_def DBL_MAX_def Let_def

lemma inf_search:
  "kdtree_search_space zero_mem (Some inf_tree) None MInf PInf PInf PInf MInf PInf =
     Some (Inr (iterator_new zero_mem))"
  by (simp add: inf_tree_def search_eval)

subsection \<open>The initial domain\<close>

lemma double_bounds [simp]: "MInf \<le> d" "d \<le> PInf"
  by (cases d; simp)+

lemma point_in_infinite_space: "point_in_search_space p infinite_space"
  by (simp add: point_in_search_space_def infinite_space_def box_def)

text \<open>
  Started from the infinite space, the search of a tree that \<open>kdtree_build\<close> returned
  leaves in the iterator the original indices of the points inside the box, each once,
  whatever the coordinates are.
\<close>

lemma search_from_infinite_space:
  assumes "qsort_ok qs" "1 < cnt" "arrays_ok cnt x y z" "handle_ok tree_ptr" "iterator_ok iter"
  shows "\<exists>tree iter'.
      kdtree_build qs u x y z cnt tree_ptr = Inr tree \<and>
      search_kdtree u' tree (t_root tree) 0 (box x_min x_max y_min y_max z_min z_max)
        infinite_space iter = Some (Inr iter') \<and>
      set (contents iter') = set (contents iter) \<union>
        box_indices cnt x y z x_min x_max y_min y_max z_min z_max \<and>
      (contents iter = [] \<longrightarrow> distinct (contents iter'))"
proof -
  let ?sp = "box x_min x_max y_min y_max z_min z_max"
  obtain tree t where run: "kdtree_build qs u x y z cnt tree_ptr = Inr tree"
    and r: "build_result x y z cnt tree t"
    using kdtree_build_result [OF assms(1-4)] by blast
  obtain s lt rt where t: "t = PBranch s lt rt"
    using r assms(2) by (rule build_result_branch)
  have root: "t_root tree = Some 0"
    and lay: "layout (t_node_data tree) (t_points tree) 0 [0..<2 * cnt - 1] [0..<cnt] (PBranch s lt rt)"
    and spec: "spec_build_subtree 0 (cached_points x y z cnt) t"
    using r t by (simp_all add: build_result_def)
  let ?vs = "map p_idx (filter (\<lambda>p. point_in_search_space p ?sp) (p_leaves t))"
  have "search_tree ?sp 0 infinite_space (PBranch s lt rt) =
      map p_idx (filter (\<lambda>p. point_in_search_space p ?sp) (p_leaves (PBranch s lt rt)))"
  proof (rule search_tree_filter)
    show "length (s_dim infinite_space) = 3" by (simp add: infinite_space_def box_def)
    show "partitioned 0 (PBranch s lt rt)" using spec_partitioned [OF spec] t by simp
    show "\<forall>p \<in> set (p_leaves (PBranch s lt rt)). point_in_search_space p infinite_space"
      by (simp add: point_in_infinite_space)
  qed
  then have search: "search_kdtree u' tree (t_root tree) 0 ?sp infinite_space iter =
      Some (Inr (push_all u' iter ?vs))"
    using search_kdtree_layout [OF lay, of u' 0 ?sp infinite_space iter] root t by simp
  have c: "contents (push_all u' iter ?vs) = contents iter @ ?vs"
    using push_all_ok [OF assms(5)] by simp
  have "mset (p_leaves t) = mset (cached_points x y z cnt)"
    using spec by (rule spec_leaves_mset)
  then have "set ?vs = box_indices cnt x y z x_min x_max y_min y_max z_min z_max" "distinct ?vs"
    using filtered_indices [of "p_leaves t" x y z cnt x_min x_max y_min y_max z_min z_max]
    by simp_all
  then show ?thesis
    using run search c by (intro exI [of _ tree] exI [of _ "push_all u' iter ?vs"]) simp
qed

text \<open>
  The test of a leaf needs no domain. For the two points \<open>(0, +\<infinity>, 0)\<close> and \<open>(1, 5, 0)\<close>
  the children of the root are leaves, and the box \<open>y = +\<infinity>\<close> finds point 0.
\<close>

lemma pair_build:
  "kdtree_build insertion_sort zero_mem [Fin 0, Fin 1] [PInf, Fin 5] [Fin 0, Fin 0] 2 None =
     Inr pair_tree"
  by code_simp

lemma pair_search:
  "kdtree_search_space zero_mem (Some pair_tree) None MInf PInf PInf PInf MInf PInf =
     Some (Inr (iterator_push zero_mem (iterator_new zero_mem) 0))"
  by (simp add: pair_tree_def search_eval)

lemma pair_search_contents:
  "contents (iterator_push zero_mem (iterator_new zero_mem) 0) = [0]"
  using iterator_push_ok(2) [of "iterator_new zero_mem" zero_mem 0]
    start_iterator_ok [of None zero_mem]
  by (simp add: start_iterator_def iterator_handle_ok_def contents_def iterator_new_def)

text \<open>
  Claim C1: the iterator holds exactly the original indices of the points inside the box.
  The code does not do so at this input. The three points are \<open>(0, +\<infinity>, 0)\<close>,
  \<open>(1, 5, 0)\<close>, \<open>(2, 0, 0)\<close>, the box is \<open>y = +\<infinity>\<close> with no bound on x and z. Point 0
  is the one point inside the box, and the search returns an empty iterator.
  \<^verbatim>\<open>kdtree_search_space\<close> starts from the domain \<open>[-DBL_MAX, DBL_MAX]\<close> on each axis where
  its comment says ``set initial domain to infinite space'': the left subtree of the root,
  which holds point 0, has a domain that does not reach \<open>+\<infinity>\<close> and is pruned. From the
  infinite space the search is right for all coordinates (\<open>search_from_infinite_space\<close>),
  and so it is from \<open>[-DBL_MAX, DBL_MAX]\<close> for finite ones (\<open>search_finite_points\<close>).
\<close>

theorem search_misses_infinite_point:
  "kdtree_build insertion_sort zero_mem inf_x inf_y inf_z 3 None = Inr inf_tree \<and>
   kdtree_search_space zero_mem (Some inf_tree) None MInf PInf PInf PInf MInf PInf =
     Some (Inr (iterator_new zero_mem)) \<and>
   contents (iterator_new zero_mem) = [] \<and>
   box_indices 3 inf_x inf_y inf_z MInf PInf PInf PInf MInf PInf = {0}"
proof -
  have "box_indices 3 inf_x inf_y inf_z MInf PInf PInf PInf MInf PInf = {0}"
    by (auto simp: box_indices_def inf_x_def inf_y_def inf_z_def less_Suc_eq numeral_3_eq_3)
  moreover have "contents (iterator_new zero_mem) = []"
    by (simp add: contents_def iterator_new_def)
  ultimately show ?thesis
    using inf_build inf_search by simp
qed

section \<open>Repeated searches and the cube search\<close>

text \<open>
  Claim C9. Take a tree that \<open>kdtree_build\<close> returned (for any coordinates, finite or
  not) and any box. A search with any iterator handle returns, and a second search of
  the same box on the same tree, which reuses the iterator of the first, returns with
  the same sequence of indices, hence the same multiset. The result does not depend on
  the handle passed in nor on the contents of fresh storage: every search of that box on
  that tree gives that sequence. (The tree is an argument that the search only reads.)
\<close>

theorem search_deterministic:
  assumes "qsort_ok qs" "1 < cnt" "arrays_ok cnt x y z" "handle_ok tree_ptr"
    "iterator_handle_ok iter_ptr" "iterator_handle_ok other_ptr"
  shows "\<exists>tree iter1 iter2 iter3.
      kdtree_build qs u x y z cnt tree_ptr = Inr tree \<and>
      kdtree_search_space u1 (Some tree) iter_ptr x_min x_max y_min y_max z_min z_max =
        Some (Inr iter1) \<and>
      kdtree_search_space u2 (Some tree) (Some iter1) x_min x_max y_min y_max z_min z_max =
        Some (Inr iter2) \<and>
      kdtree_search_space u3 (Some tree) other_ptr x_min x_max y_min y_max z_min z_max =
        Some (Inr iter3) \<and>
      contents iter2 = contents iter1 \<and> contents iter3 = contents iter1 \<and>
      mset (contents iter2) = mset (contents iter1)"
proof -
  obtain tree t where run: "kdtree_build qs u x y z cnt tree_ptr = Inr tree"
    and r: "build_result x y z cnt tree t"
    using kdtree_build_result [OF assms(1-4)] by blast
  let ?vs = "search_tree (box x_min x_max y_min y_max z_min z_max) 0 initial_domain t"
  let ?iter1 = "push_all u1 (start_iterator u1 iter_ptr) ?vs"
  let ?iter2 = "push_all u2 (start_iterator u2 (Some ?iter1)) ?vs"
  let ?iter3 = "push_all u3 (start_iterator u3 other_ptr) ?vs"
  note search = kdtree_search_space_tree [OF r assms(2)]
  have c1: "iterator_ok ?iter1" "contents ?iter1 = ?vs"
    using push_all_ok [of "start_iterator u1 iter_ptr" u1 ?vs] start_iterator_ok [OF assms(5), of u1]
    by simp_all
  then have "iterator_handle_ok (Some ?iter1)"
    by (simp add: iterator_handle_ok_def)
  then have c2: "contents ?iter2 = ?vs"
    using push_all_ok [of "start_iterator u2 (Some ?iter1)" u2 ?vs]
      start_iterator_ok [of "Some ?iter1" u2]
    by simp
  have c3: "contents ?iter3 = ?vs"
    using push_all_ok [of "start_iterator u3 other_ptr" u3 ?vs] start_iterator_ok [OF assms(6), of u3]
    by simp
  show ?thesis
    using run search [of u1 iter_ptr] search [of u2 "Some ?iter1"] search [of u3 other_ptr] c1 c2 c3
    by (intro exI [of _ tree] exI [of _ ?iter1] exI [of _ ?iter2] exI [of _ ?iter3]) simp
qed

theorem search_deterministic_witness:
  "\<exists>tree iter1 iter2 iter3.
      kdtree_build insertion_sort zero_mem test_x test_y test_z 11 None = Inr tree \<and>
      kdtree_search_space zero_mem (Some tree) None (Fin 0) (Fin 1) (Fin 0.5) (Fin 1) (Fin 0) (Fin 1) =
        Some (Inr iter1) \<and>
      kdtree_search_space zero_mem (Some tree) (Some iter1) (Fin 0) (Fin 1) (Fin 0.5) (Fin 1) (Fin 0) (Fin 1) =
        Some (Inr iter2) \<and>
      kdtree_search_space zero_mem (Some tree) (Some example_iterator)
          (Fin 0) (Fin 1) (Fin 0.5) (Fin 1) (Fin 0) (Fin 1) =
        Some (Inr iter3) \<and>
      contents iter2 = contents iter1 \<and> contents iter3 = contents iter1 \<and>
      mset (contents iter2) = mset (contents iter1)"
  by (rule search_deterministic [OF qsort_ok_insertion_sort _ test_arrays_ok])
     (simp_all add: handle_ok_def iterator_handle_ok_def iterator_ok_def example_iterator_def)

text \<open>
  Claim C7. For every tree handle, iterator handle, centre \<open>(x, y, z)\<close> and apothem
  \<open>a \<ge> 0\<close>, \<open>kdtree_search\<close> gives what \<open>kdtree_search_space\<close> gives for the bounds
  \<open>x - a\<close>, \<open>x + a\<close>, \<open>y - a\<close>, \<open>y + a\<close>, \<open>z - a\<close>, \<open>z + a\<close>, computed by the same
  floating-point subtraction \<open>fsub\<close> and addition \<open>fadd\<close>: the same error, or the same
  iterator.
\<close>

theorem cube_search_is_box_search:
  assumes "Fin 0 \<le> apothem"
  shows "kdtree_search fsub fadd u tree_ptr iter_ptr x y z apothem =
         kdtree_search_space u tree_ptr iter_ptr
           (fsub x apothem) (fadd x apothem)
           (fsub y apothem) (fadd y apothem)
           (fsub z apothem) (fadd z apothem)"
  using assms by (simp add: kdtree_search_def)

theorem cube_search_is_box_search_witness:
  "kdtree_search exact_sub exact_add zero_mem (Some inf_tree) None (Fin 0.5) (Fin 0.5) (Fin 0.5) (Fin 0.5) =
   kdtree_search_space zero_mem (Some inf_tree) None (Fin 0) (Fin 1) (Fin 0) (Fin 1) (Fin 0) (Fin 1)"
  using cube_search_is_box_search [of "Fin 0.5" exact_sub exact_add zero_mem "Some inf_tree" None
      "Fin 0.5" "Fin 0.5" "Fin 0.5"]
  by simp

lemma old_build:
  "kdtree_build insertion_sort zero_mem [Fin 0, Fin 1, Fin 2] [Fin 2, Fin 1, Fin 0]
     [Fin 1, Fin 1, Fin 1] 3 None = Inr old_tree"
  by code_simp

lemma old_tree_allocated: "allocated old_tree" "t_count old_tree = 3"
  by (simp_all add: allocated_def old_tree_def)

lemma old_tree_sizes:
  "t_max_nodes old_tree = 5" "length (t_points old_tree) = 3" "length (t_node_data old_tree) = 5"
  by (simp_all add: old_tree_def)

lemma rebuild_unfold:
  assumes "1 < cnt" "arrays_ok cnt x y z" "allocated old" "t_count old = cnt"
  shows "kdtree_build qs u x y z cnt (Some old) =
         (case build_kdtree qs 0 (cnt - 1) 0
                 (old\<lparr>t_next_node := 0, t_points := cached_points x y z cnt\<rparr>) of
            Inl e \<Rightarrow> Inl e
          | Inr (node, tree') \<Rightarrow> Inr (tree'\<lparr>t_root := Some node\<rparr>))"
proof -
  have "cache_points x y z cnt 0 (t_points old) = Inr (cached_points x y z cnt)"
    using assms by (intro cache_points_all) (simp_all add: allocated_def)
  then show ?thesis
    using assms(1,4) by (simp add: kdtree_build_def)
qed

text \<open>
  A build on a handle that refers to a tree \<open>old\<close> whose recorded count equals the new
  count \<open>cnt \<ge> 2\<close>, for any coordinates: \<open>kdtree_build\<close> is the builder run on \<open>old\<close>
  itself with the cursor reset to 0 and the point cache refilled, slot \<open>i\<close> holding
  \<open>(x ! i, y ! i, z ! i)\<close> with original index \<open>i\<close> for every \<open>i < cnt\<close>
  (\<open>cached_points\<close>), followed by the store of the root. Nothing is allocated: the result
  does not depend on \<open>u\<close>, and the tree returned has the count, the capacity, the point
  cache size and the arena size of \<open>old\<close>.
\<close>

lemma rebuild_in_place:
  assumes "qsort_ok qs" "1 < cnt" "arrays_ok cnt x y z" "allocated old" "t_count old = cnt"
  shows "kdtree_build qs u x y z cnt (Some old) =
           (case build_kdtree qs 0 (cnt - 1) 0
                   (old\<lparr>t_next_node := 0, t_points := cached_points x y z cnt\<rparr>) of
              Inl e \<Rightarrow> Inl e
            | Inr (node, tree') \<Rightarrow> Inr (tree'\<lparr>t_root := Some node\<rparr>))"
    and "kdtree_build qs u x y z cnt (Some old) = kdtree_build qs u' x y z cnt (Some old)"
    and "\<exists>tree.
            kdtree_build qs u x y z cnt (Some old) = Inr tree \<and>
            t_count tree = t_count old \<and> t_max_nodes tree = t_max_nodes old \<and>
            length (t_points tree) = length (t_points old) \<and>
            length (t_node_data tree) = length (t_node_data old)"
proof -
  have h: "handle_ok (Some old)"
    using assms(4) by (simp add: handle_ok_def)
  obtain tree t where run: "kdtree_build qs u x y z cnt (Some old) = Inr tree"
    and r: "build_result x y z cnt tree t"
    using kdtree_build_result [OF assms(1-3) h] by blast
  have sizes: "t_count tree = t_count old" "t_max_nodes tree = t_max_nodes old"
    "length (t_points tree) = length (t_points old)"
    "length (t_node_data tree) = length (t_node_data old)"
    using r assms(2,4,5) by (simp_all add: build_result_def allocated_def)
  show "kdtree_build qs u x y z cnt (Some old) =
      (case build_kdtree qs 0 (cnt - 1) 0
              (old\<lparr>t_next_node := 0, t_points := cached_points x y z cnt\<rparr>) of
         Inl e \<Rightarrow> Inl e
       | Inr (node, tree') \<Rightarrow> Inr (tree'\<lparr>t_root := Some node\<rparr>))"
    by (rule rebuild_unfold [OF assms(2-5)])
  show "kdtree_build qs u x y z cnt (Some old) = kdtree_build qs u' x y z cnt (Some old)"
    unfolding rebuild_unfold [OF assms(2-5)] by (rule refl)
  show "\<exists>tree.
      kdtree_build qs u x y z cnt (Some old) = Inr tree \<and>
      t_count tree = t_count old \<and> t_max_nodes tree = t_max_nodes old \<and>
      length (t_points tree) = length (t_points old) \<and>
      length (t_node_data tree) = length (t_node_data old)"
    using run sizes by blast
qed

text \<open>
  When the new coordinates are all finite, a search of the rebuilt tree returns exactly
  the original indices of the new points inside the box, each once, whatever \<open>old\<close> held.
\<close>

lemma rebuild_search_finite:
  assumes "qsort_ok qs" "1 < cnt" "arrays_ok cnt x y z" "allocated old" "t_count old = cnt"
    "iterator_handle_ok iter_ptr" "finite_points cnt x y z"
  shows "\<exists>tree iter.
      kdtree_build qs u x y z cnt (Some old) = Inr tree \<and>
      kdtree_search_space u' (Some tree) iter_ptr x_min x_max y_min y_max z_min z_max =
        Some (Inr iter) \<and>
      set (contents iter) = box_indices cnt x y z x_min x_max y_min y_max z_min z_max \<and>
      distinct (contents iter)"
proof -
  have h: "handle_ok (Some old)"
    using assms(4) by (simp add: handle_ok_def)
  show ?thesis
    by (rule search_finite_points [OF assms(1-3) h assms(6,7)])
qed

lemma inf_rebuild:
  "kdtree_build insertion_sort zero_mem inf_x inf_y inf_z 3 (Some old_tree) = Inr inf_tree"
  by code_simp

lemma take_three_updates:
  "take (Suc (Suc (Suc 0))) ((map f [0..<50])[0 := a, Suc 0 := b, Suc (Suc 0) := c]) = [a, b, c]"
proof -
  have "[0..<50] = 0 # 1 # 2 # [3..<50]"
    by (simp add: upt_conv_Cons)
  then show ?thesis by simp
qed

lemma inf_search_all:
  "search_contents (kdtree_search_space zero_mem (Some inf_tree) None
      (- DBL_MAX) DBL_MAX (- DBL_MAX) DBL_MAX (- DBL_MAX) DBL_MAX) = Some [1, 0, 2]"
  by (simp add: inf_tree_def search_eval search_contents_def contents_def iterator_push_def
      iterator_new_def malloc_indices_def KDTREE_ITERATOR_INITIAL_SIZE_def take_three_updates)

text \<open>
  Claim C6: after a rebuild in place, searches return the results that are correct for
  the new coordinates. The code does not do so at this input. The tree of the earlier
  build, of the points \<open>(0, 2, 1)\<close>, \<open>(1, 1, 1)\<close>, \<open>(2, 0, 1)\<close>, is rebuilt with the three
  points \<open>(0, +\<infinity>, 0)\<close>, \<open>(1, 5, 0)\<close>, \<open>(2, 0, 0)\<close> and searched with the box
  \<open>[-DBL_MAX, DBL_MAX]\<close> on each axis, which holds the points 1 and 2 only. The rebuild
  itself is sound: it returns the tree that a first build of the new coordinates returns.
  The search of that tree returns the indices 1, 0, 2: the domain of the left subtree of
  the root, cut from \<open>[-DBL_MAX, DBL_MAX]\<close> and not from the infinite space that the
  comment in \<^verbatim>\<open>kdtree_search_space\<close> names, is enclosed by the box, and its leaves, point 0
  among them, are reported without a test.
\<close>

theorem rebuild_reports_infinite_point:
  "kdtree_build insertion_sort zero_mem [Fin 0, Fin 1, Fin 2] [Fin 2, Fin 1, Fin 0]
     [Fin 1, Fin 1, Fin 1] 3 None = Inr old_tree \<and>
   t_count old_tree = 3 \<and>
   kdtree_build insertion_sort zero_mem inf_x inf_y inf_z 3 (Some old_tree) = Inr inf_tree \<and>
   kdtree_build insertion_sort zero_mem inf_x inf_y inf_z 3 None = Inr inf_tree \<and>
   search_contents (kdtree_search_space zero_mem (Some inf_tree) None
      (- DBL_MAX) DBL_MAX (- DBL_MAX) DBL_MAX (- DBL_MAX) DBL_MAX) = Some [1, 0, 2] \<and>
   box_indices 3 inf_x inf_y inf_z (- DBL_MAX) DBL_MAX (- DBL_MAX) DBL_MAX (- DBL_MAX) DBL_MAX =
     {1, 2}"
proof -
  have "box_indices 3 inf_x inf_y inf_z (- DBL_MAX) DBL_MAX (- DBL_MAX) DBL_MAX (- DBL_MAX) DBL_MAX =
      {1, 2}"
    by (auto simp: box_indices_def inf_x_def inf_y_def inf_z_def DBL_MAX_def less_Suc_eq
        numeral_3_eq_3)
  then show ?thesis
    using old_build old_tree_allocated(2) inf_rebuild inf_build inf_search_all by simp
qed

subsection \<open>Nodes and subtrees\<close>

lemma layout_leaf_cases:
  assumes "layout nodes points p cells slots t" "is_leaf_node (nodes ! p)"
  shows "t = PLeaf (points ! n_idx (nodes ! p))" "n_idx (nodes ! p) < length points"
    "slots = [n_idx (nodes ! p)]"
  using assms by (induction rule: layout.induct) (simp_all add: is_leaf_node_def)

lemma layout_branch_cases:
  assumes "layout nodes points p cells slots t" "\<not> is_leaf_node (nodes ! p)"
  obtains l r cells1 slots1 lt cells2 slots2 rt where
    "n_left (nodes ! p) = Some l" "n_right (nodes ! p) = Some r"
    "layout nodes points l cells1 slots1 lt" "layout nodes points r cells2 slots2 rt"
    "t = PBranch (n_split (nodes ! p)) lt rt" "slots = slots1 @ slots2"
  using assms by (induction rule: layout.induct) (simp_all add: is_leaf_node_def)

lemma leaf_under_layout:
  assumes "leaf_under tree node i"
    and "node = Some p" "layout (t_node_data tree) (t_points tree) p cells slots t"
  shows "i \<in> set slots"
  using assms
proof (induction arbitrary: p cells slots t rule: leaf_under.induct)
  case (leaf_here q)
  then show ?case
    using layout_leaf_cases [of "t_node_data tree" "t_points tree" q cells slots t] by simp
next
  case (leaf_left q i)
  from leaf_left.prems have lay: "layout (t_node_data tree) (t_points tree) q cells slots t"
    by simp
  from lay leaf_left.hyps(2) show ?case
  proof (rule layout_branch_cases)
    fix l r cells1 slots1 lt cells2 slots2 rt
    assume "n_left (t_node_data tree ! q) = Some l"
      and "layout (t_node_data tree) (t_points tree) l cells1 slots1 lt"
      and "slots = slots1 @ slots2"
    then show ?thesis
      using leaf_left.IH [of l cells1 slots1 lt] by simp
  qed
next
  case (leaf_right q i)
  from leaf_right.prems have lay: "layout (t_node_data tree) (t_points tree) q cells slots t"
    by simp
  from lay leaf_right.hyps(2) show ?case
  proof (rule layout_branch_cases)
    fix l r cells1 slots1 lt cells2 slots2 rt
    assume "n_right (t_node_data tree ! q) = Some r"
      and "layout (t_node_data tree) (t_points tree) r cells2 slots2 rt"
      and "slots = slots1 @ slots2"
    then show ?thesis
      using leaf_right.IH [of r cells2 slots2 rt] by simp
  qed
qed

lemma layout_leaf_under:
  assumes "layout nodes points p cells slots t"
    and "nodes = t_node_data tree" "points = t_points tree"
  shows "\<forall>i \<in> set slots. leaf_under tree (Some p) i"
  using assms
proof (induction rule: layout.induct)
  case (leaf p nodes points)
  then show ?case by (auto intro: leaf_under.leaf_here)
next
  case (branch p nodes l r points cells1 slots1 lt cells2 slots2 rt)
  have nl: "\<not> is_leaf_node (t_node_data tree ! p)"
    using branch.hyps(2) branch.prems by (simp add: is_leaf_node_def)
  have "leaf_under tree (Some p) i" if "i \<in> set slots1" for i
    using that branch.IH(1) [OF branch.prems] branch.hyps(1,2) branch.prems nl
      leaf_under.leaf_left [of p tree i] by simp
  moreover have "leaf_under tree (Some p) i" if "i \<in> set slots2" for i
    using that branch.IH(2) [OF branch.prems] branch.hyps(1,3) branch.prems nl
      leaf_under.leaf_right [of p tree i] by simp
  ultimately show ?case by auto
qed

lemma bounded_call_left:
  assumes "bounded_call tree t0 (Some p) depth domain t" "\<not> is_leaf_node (t_node_data tree ! p)"
  shows "\<exists>t'. bounded_call tree t0 (n_left (t_node_data tree ! p)) (depth + 1)
           (dim_max_update (depth mod NDIMS) (n_split (t_node_data tree ! p)) domain) t'"
proof -
  obtain cells slots where lay: "layout (t_node_data tree) (t_points tree) p cells slots t"
    and part: "partitioned depth t" and len: "length (s_dim domain) = 3"
    and sub: "set (p_leaves t) \<subseteq> set (p_leaves t0)"
    and dom: "\<forall>q \<in> set (p_leaves t). point_in_search_space q domain"
    using assms(1) by (auto simp: bounded_call_def)
  from lay assms(2) show ?thesis
  proof (rule layout_branch_cases)
    fix l r cells1 slots1 lt cells2 slots2 rt
    assume l: "n_left (t_node_data tree ! p) = Some l"
      and ll: "layout (t_node_data tree) (t_points tree) l cells1 slots1 lt"
      and t: "t = PBranch (n_split (t_node_data tree ! p)) lt rt"
    have "\<forall>q \<in> set (p_leaves lt). point_in_search_space q
        (dim_max_update (depth mod NDIMS) (n_split (t_node_data tree ! p)) domain)"
      using part dom len t by (auto simp: NDIMS_def intro!: point_in_left_domain)
    then have "bounded_call tree t0 (n_left (t_node_data tree ! p)) (depth + 1)
        (dim_max_update (depth mod NDIMS) (n_split (t_node_data tree ! p)) domain) lt"
      using l ll part len sub t by (auto simp: bounded_call_def)
    then show ?thesis ..
  qed
qed

lemma bounded_call_right:
  assumes "bounded_call tree t0 (Some p) depth domain t" "\<not> is_leaf_node (t_node_data tree ! p)"
  shows "\<exists>t'. bounded_call tree t0 (n_right (t_node_data tree ! p)) (depth + 1)
           (dim_min_update (depth mod NDIMS) (n_split (t_node_data tree ! p)) domain) t'"
proof -
  obtain cells slots where lay: "layout (t_node_data tree) (t_points tree) p cells slots t"
    and part: "partitioned depth t" and len: "length (s_dim domain) = 3"
    and sub: "set (p_leaves t) \<subseteq> set (p_leaves t0)"
    and dom: "\<forall>q \<in> set (p_leaves t). point_in_search_space q domain"
    using assms(1) by (auto simp: bounded_call_def)
  from lay assms(2) show ?thesis
  proof (rule layout_branch_cases)
    fix l r cells1 slots1 lt cells2 slots2 rt
    assume r: "n_right (t_node_data tree ! p) = Some r"
      and lr: "layout (t_node_data tree) (t_points tree) r cells2 slots2 rt"
      and t: "t = PBranch (n_split (t_node_data tree ! p)) lt rt"
    have "\<forall>q \<in> set (p_leaves rt). point_in_search_space q
        (dim_min_update (depth mod NDIMS) (n_split (t_node_data tree ! p)) domain)"
      using part dom len t by (auto simp: NDIMS_def intro!: point_in_right_domain)
    then have "bounded_call tree t0 (n_right (t_node_data tree ! p)) (depth + 1)
        (dim_min_update (depth mod NDIMS) (n_split (t_node_data tree ! p)) domain) rt"
      using r lr part len sub t by (auto simp: bounded_call_def)
    then show ?thesis ..
  qed
qed

lemma calls_bounded:
  assumes root: "t_root tree = Some 0"
    and lay0: "layout (t_node_data tree) (t_points tree) 0 cells0 slots0 t0"
    and part0: "partitioned 0 t0"
    and dom0: "\<forall>q \<in> set (p_leaves t0). point_in_search_space q initial_domain"
  shows "search_called tree search_space node depth domain \<Longrightarrow>
      (\<exists>p. node = Some p \<and> \<not> is_leaf_node (t_node_data tree ! p)) \<and>
      (\<exists>t. bounded_call tree t0 node depth domain t)"
    and "explore_called tree search_space node depth domain \<Longrightarrow>
      \<exists>t. bounded_call tree t0 node (depth + 1) domain t"
proof (induction rule: search_called_explore_called.inducts)
  case (root_call r)
  have "bounded_call tree t0 (t_root tree) 0 initial_domain t0"
    using root lay0 part0 dom0 by (auto simp: bounded_call_def initial_domain_def)
  then show ?case using root_call root by auto
next
  case (left_call p depth domain)
  then show ?case using bounded_call_left by blast
next
  case (right_call p depth domain)
  from right_call.IH obtain t where b: "bounded_call tree t0 (Some p) depth domain t"
    and nl: "\<not> is_leaf_node (t_node_data tree ! p)"
    by auto
  have len: "length (s_dim domain) = 3"
    using b by (simp add: bounded_call_def)
  have "dim_min_update (depth mod NDIMS) (n_split (t_node_data tree ! p))
          (dim_max_update (depth mod NDIMS) (b_max (s_dim domain ! (depth mod NDIMS)))
             (dim_max_update (depth mod NDIMS) (n_split (t_node_data tree ! p)) domain)) =
        dim_min_update (depth mod NDIMS) (n_split (t_node_data tree ! p)) domain"
    using len by (intro right_domain) (simp add: NDIMS_def)
  then show ?case using bounded_call_right [OF b nl] by simp
next
  case (descend p depth domain)
  then show ?case by auto
qed

lemma bounded_call_leaf:
  assumes "bounded_call tree t0 node d domain t" "leaf_under tree node i"
  shows "i < length (t_points tree)" "t_points tree ! i \<in> set (p_leaves t0)"
    "point_in_search_space (t_points tree ! i) domain"
proof -
  obtain p cells slots where node: "node = Some p"
    and lay: "layout (t_node_data tree) (t_points tree) p cells slots t"
    and sub: "set (p_leaves t) \<subseteq> set (p_leaves t0)"
    and dom: "\<forall>q \<in> set (p_leaves t). point_in_search_space q domain"
    using assms(1) by (auto simp: bounded_call_def)
  have i: "i \<in> set slots"
    using leaf_under_layout [OF assms(2) node lay] .
  then show "i < length (t_points tree)"
    using layout_slots_in_range [OF lay] by simp
  have "t_points tree ! i \<in> set (p_leaves t)"
    using i layout_leaves [OF lay] by simp
  then show "t_points tree ! i \<in> set (p_leaves t0)"
    and "point_in_search_space (t_points tree ! i) domain"
    using sub dom by auto
qed

lemma bounded_call_report:
  assumes "bounded_call tree t0 node d domain t"
  shows "report_all_leaves u tree node iter =
           Some (Inr (push_all u iter (map p_idx (p_leaves t))))"
    and "set (p_leaves t) = {t_points tree ! i |i. leaf_under tree node i}"
proof -
  obtain p cells slots where node: "node = Some p"
    and lay: "layout (t_node_data tree) (t_points tree) p cells slots t"
    using assms(1) by (auto simp: bounded_call_def)
  show "report_all_leaves u tree node iter =
      Some (Inr (push_all u iter (map p_idx (p_leaves t))))"
    using report_all_leaves_layout [OF lay] node by simp
  have "set slots = {i. leaf_under tree node i}"
    using layout_leaf_under [OF lay] leaf_under_layout [OF _ node lay] node by auto
  then show "set (p_leaves t) = {t_points tree ! i |i. leaf_under tree node i}"
    using layout_leaves [OF lay] by auto
qed

lemma cached_point_box_index:
  assumes "q \<in> set (cached_points x y z cnt)"
  shows "p_idx q < cnt"
    and "point_in_search_space q (box x_min x_max y_min y_max z_min z_max) \<longleftrightarrow>
         p_idx q \<in> box_indices cnt x y z x_min x_max y_min y_max z_min z_max"
proof -
  obtain k where k: "k < cnt" "q = cached_points x y z cnt ! k"
    using assms by (auto simp: in_set_conv_nth)
  then show "p_idx q < cnt"
    by (simp add: cached_point_idx)
  show "point_in_search_space q (box x_min x_max y_min y_max z_min z_max) \<longleftrightarrow>
      p_idx q \<in> box_indices cnt x y z x_min x_max y_min y_max z_min z_max"
    using k cached_point_in_box [of k cnt x y z] cached_point_idx [of k cnt x y z]
    by (simp add: box_indices_def)
qed

lemma explore_called_domain:
  assumes "explore_called tree search_space node depth domain'"
  shows "\<exists>p domain. search_called tree search_space (Some p) depth domain \<and>
      p < length (t_node_data tree) \<and>
      (node = n_left (t_node_data tree ! p) \<and>
         domain' = dim_max_update (depth mod NDIMS) (n_split (t_node_data tree ! p)) domain \<or>
       node = n_right (t_node_data tree ! p) \<and>
         domain' = dim_min_update (depth mod NDIMS) (n_split (t_node_data tree ! p))
           (dim_max_update (depth mod NDIMS) (b_max (s_dim domain ! (depth mod NDIMS)))
              (dim_max_update (depth mod NDIMS) (n_split (t_node_data tree ! p)) domain)))"
  using assms by (cases rule: explore_called.cases) blast+

text \<open>
  A tree that \<open>kdtree_build\<close> returned for points whose coordinates are all finite, and
  a search of it with any box.
  \<^item> The search calls \<^verbatim>\<open>_search_kdtree\<close> on the root with the initial domain.
  \<^item> Whenever \<^verbatim>\<open>_search_kdtree\<close> or \<^verbatim>\<open>_explore_branch\<close> is called on a node with a
    domain, every point cache slot reachable under the node holds a point within the
    domain, on all three axes.
  \<^item> The domain \<^verbatim>\<open>_explore_branch\<close> is called with is that of the calling
    \<^verbatim>\<open>_search_kdtree\<close>, with the maximum of the axis \<open>depth mod 3\<close> set to the split value
    for the left child, and with the minimum of that axis set to it for the right child.
  \<^item> When the domain of such a call is completely enclosed by the box,
    \<^verbatim>\<open>_report_all_leaves\<close> on the node returns, and what it pushes are the original indices
    of the points reachable under the node, all of them inside the box.
  \<^item> When the domain of such a call does not intersect the box, no point reachable under
    the node is inside the box.
\<close>

lemma finite_points_bounded_domains:
  assumes "qsort_ok qs" "1 < cnt" "arrays_ok cnt x y z" "handle_ok tree_ptr"
    "finite_points cnt x y z"
  shows "\<exists>tree.
      kdtree_build qs u x y z cnt tree_ptr = Inr tree \<and>
      search_called tree (box x_min x_max y_min y_max z_min z_max) (t_root tree) 0 initial_domain \<and>
      (\<forall>node depth domain i.
         search_called tree (box x_min x_max y_min y_max z_min z_max) node depth domain \<or>
         explore_called tree (box x_min x_max y_min y_max z_min z_max) node depth domain \<longrightarrow>
         leaf_under tree node i \<longrightarrow>
         i < cnt \<and> point_in_search_space (t_points tree ! i) domain) \<and>
      (\<forall>node depth domain'.
         explore_called tree (box x_min x_max y_min y_max z_min z_max) node depth domain' \<longrightarrow>
         (\<exists>p domain.
            search_called tree (box x_min x_max y_min y_max z_min z_max) (Some p) depth domain \<and>
            p < length (t_node_data tree) \<and>
            (node = n_left (t_node_data tree ! p) \<and>
               domain' = dim_max_update (depth mod 3) (n_split (t_node_data tree ! p)) domain \<or>
             node = n_right (t_node_data tree ! p) \<and>
               domain' = dim_min_update (depth mod 3) (n_split (t_node_data tree ! p)) domain))) \<and>
      (\<forall>node depth domain iter.
         explore_called tree (box x_min x_max y_min y_max z_min z_max) node depth domain \<longrightarrow>
         completely_enclosed (box x_min x_max y_min y_max z_min z_max) domain \<longrightarrow>
         (\<exists>vs. report_all_leaves u' tree node iter = Some (Inr (push_all u' iter vs)) \<and>
            set vs = {p_idx (t_points tree ! i) |i. leaf_under tree node i} \<and>
            set vs \<subseteq> box_indices cnt x y z x_min x_max y_min y_max z_min z_max)) \<and>
      (\<forall>node depth domain i.
         explore_called tree (box x_min x_max y_min y_max z_min z_max) node depth domain \<longrightarrow>
         \<not> search_area_intersects (box x_min x_max y_min y_max z_min z_max) domain \<longrightarrow>
         leaf_under tree node i \<longrightarrow>
         p_idx (t_points tree ! i) \<notin> box_indices cnt x y z x_min x_max y_min y_max z_min z_max)"
proof -
  let ?sp = "box x_min x_max y_min y_max z_min z_max"
  let ?B = "box_indices cnt x y z x_min x_max y_min y_max z_min z_max"
  obtain tree t where run: "kdtree_build qs u x y z cnt tree_ptr = Inr tree"
    and r: "build_result x y z cnt tree t"
    using kdtree_build_result [OF assms(1-4)] by blast
  obtain s lt rt where t: "t = PBranch s lt rt"
    using r assms(2) by (rule build_result_branch)
  have root: "t_root tree = Some 0"
    and lay: "layout (t_node_data tree) (t_points tree) 0 [0..<2 * cnt - 1] [0..<cnt] t"
    and spec: "spec_build_subtree 0 (cached_points x y z cnt) t"
    and len: "length (t_points tree) = cnt"
    using r by (simp_all add: build_result_def)
  have part: "partitioned 0 t"
    using spec_partitioned [OF spec] by simp
  have leaves: "set (p_leaves t) = set (cached_points x y z cnt)"
    using spec_leaves_mset [OF spec] by (metis set_mset_mset)
  have dom0: "\<forall>q \<in> set (p_leaves t). point_in_search_space q initial_domain"
    using leaves finite_points_in_initial_domain [OF assms(5)] by simp
  note cb = calls_bounded [OF root lay part dom0, of ?sp]
  have a: "search_called tree ?sp (t_root tree) 0 initial_domain"
    using root layout_root [OF lay] layout_branch_not_leaf [of "t_node_data tree" "t_points tree" 0]
      lay t
    by (intro search_called_explore_called.root_call [of tree 0]) simp_all
  have bounded: "\<exists>d t'. bounded_call tree t node d domain t'"
    if "search_called tree ?sp node depth domain \<or> explore_called tree ?sp node depth domain"
    for node depth domain
    using that cb [of node depth domain] by blast
  have b: "i < cnt \<and> point_in_search_space (t_points tree ! i) domain"
    if "search_called tree ?sp node depth domain \<or> explore_called tree ?sp node depth domain"
      "leaf_under tree node i"
    for node depth domain i
    using bounded [OF that(1)] bounded_call_leaf(1,3) [OF _ that(2)] len by metis
  have in_box: "p_idx (t_points tree ! i) \<in> ?B \<longleftrightarrow> point_in_search_space (t_points tree ! i) ?sp"
    if e: "explore_called tree ?sp node depth domain" and i: "leaf_under tree node i"
    for node depth domain i
  proof -
    obtain d t' where bc: "bounded_call tree t node d domain t'"
      using bounded [OF disjI2 [OF e]] by blast
    have "t_points tree ! i \<in> set (cached_points x y z cnt)"
      using bounded_call_leaf(2) [OF bc i] leaves by simp
    then show ?thesis
      by (simp add: cached_point_box_index(2))
  qed
  have c: "\<exists>p domain. search_called tree ?sp (Some p) depth domain \<and>
      p < length (t_node_data tree) \<and>
      (node = n_left (t_node_data tree ! p) \<and>
         domain' = dim_max_update (depth mod 3) (n_split (t_node_data tree ! p)) domain \<or>
       node = n_right (t_node_data tree ! p) \<and>
         domain' = dim_min_update (depth mod 3) (n_split (t_node_data tree ! p)) domain)"
    if e: "explore_called tree ?sp node depth domain'" for node depth domain'
  proof -
    obtain p domain where p: "search_called tree ?sp (Some p) depth domain"
      "p < length (t_node_data tree)"
      and cases: "node = n_left (t_node_data tree ! p) \<and>
         domain' = dim_max_update (depth mod NDIMS) (n_split (t_node_data tree ! p)) domain \<or>
       node = n_right (t_node_data tree ! p) \<and>
         domain' = dim_min_update (depth mod NDIMS) (n_split (t_node_data tree ! p))
           (dim_max_update (depth mod NDIMS) (b_max (s_dim domain ! (depth mod NDIMS)))
              (dim_max_update (depth mod NDIMS) (n_split (t_node_data tree ! p)) domain))"
      using explore_called_domain [OF e] by blast
    have "length (s_dim domain) = 3"
      using cb(1) [OF p(1)] by (auto simp: bounded_call_def)
    then have "dim_min_update (depth mod NDIMS) (n_split (t_node_data tree ! p))
           (dim_max_update (depth mod NDIMS) (b_max (s_dim domain ! (depth mod NDIMS)))
              (dim_max_update (depth mod NDIMS) (n_split (t_node_data tree ! p)) domain)) =
        dim_min_update (depth mod NDIMS) (n_split (t_node_data tree ! p)) domain"
      by (intro right_domain) (simp add: NDIMS_def)
    with cases p show ?thesis
      unfolding NDIMS_def by metis
  qed
  have d: "\<exists>vs. report_all_leaves u' tree node iter = Some (Inr (push_all u' iter vs)) \<and>
      set vs = {p_idx (t_points tree ! i) |i. leaf_under tree node i} \<and> set vs \<subseteq> ?B"
    if e: "explore_called tree ?sp node depth domain" and enc: "completely_enclosed ?sp domain"
    for node depth domain iter
  proof -
    obtain d t' where bc: "bounded_call tree t node d domain t'"
      using bounded [OF disjI2 [OF e]] by blast
    have vs: "set (map p_idx (p_leaves t')) = {p_idx (t_points tree ! i) |i. leaf_under tree node i}"
      using bounded_call_report(2) [OF bc] by auto
    have "p_idx (t_points tree ! i) \<in> ?B" if "leaf_under tree node i" for i
      using in_box [OF e that] enclosed_point [OF enc] bounded_call_leaf(3) [OF bc that] by simp
    then have "set (map p_idx (p_leaves t')) \<subseteq> ?B"
      unfolding vs by auto
    then show ?thesis
      using bounded_call_report(1) [OF bc, of u' iter] vs by blast
  qed
  have f: "p_idx (t_points tree ! i) \<notin> ?B"
    if e: "explore_called tree ?sp node depth domain"
      and dis: "\<not> search_area_intersects ?sp domain" and i: "leaf_under tree node i"
    for node depth domain i
  proof -
    obtain d t' where bc: "bounded_call tree t node d domain t'"
      using bounded [OF disjI2 [OF e]] by blast
    show ?thesis
      using in_box [OF e i] disjoint_point [OF dis] bounded_call_leaf(3) [OF bc i] by simp
  qed
  show ?thesis
    using run a b c d f by (intro exI [of _ tree] conjI allI impI) blast+
qed

lemma old_points_finite: "finite_points 3 [Fin 0, Fin 1, Fin 2] [Fin 2, Fin 1, Fin 0] [Fin 1, Fin 1, Fin 1]"
proof -
  have "finite_double (Fin 0)" "finite_double (Fin 1)" "finite_double (Fin 2)"
    by (simp_all add: finite_double_def DBL_MAX_def)
  then show ?thesis
    by (auto simp: finite_points_def less_Suc_eq numeral_3_eq_3)
qed

lemma left_of_root_called:
  assumes "search_called tree search_space (t_root tree) 0 initial_domain"
    "t_root tree = Some 0" "0 < length (t_node_data tree)"
    "n_left (t_node_data tree ! 0) = Some l" "n_split (t_node_data tree ! 0) = v"
  shows "explore_called tree search_space (Some l) 0 (dim_max_update 0 v initial_domain)"
  using search_called_explore_called.left_call [of tree search_space 0 0 initial_domain] assms
  by simp

lemma right_leaf_under:
  assumes "p < length (t_node_data tree)" "\<not> is_leaf_node (t_node_data tree ! p)"
    "n_right (t_node_data tree ! p) = Some r" "r < length (t_node_data tree)"
    "is_leaf_node (t_node_data tree ! r)" "n_idx (t_node_data tree ! r) = i"
  shows "leaf_under tree (Some p) i"
  using leaf_under.leaf_right [of p tree i] leaf_under.leaf_here [of r tree] assms by simp

lemma bounded_domains_old_tree:
  "kdtree_build insertion_sort zero_mem [Fin 0, Fin 1, Fin 2] [Fin 2, Fin 1, Fin 0]
     [Fin 1, Fin 1, Fin 1] 3 None = Inr old_tree \<and>
   explore_called old_tree (box (Fin 0) (Fin 1) (Fin 0) (Fin 1) (Fin 0) (Fin 1)) (Some 1) 0
     (dim_max_update 0 (Fin 1) initial_domain) \<and>
   leaf_under old_tree (Some 1) 1 \<and>
   point_in_search_space (t_points old_tree ! 1) (dim_max_update 0 (Fin 1) initial_domain)"
proof -
  let ?sp = "box (Fin 0) (Fin 1) (Fin 0) (Fin 1) (Fin 0) (Fin 1)"
  have arr: "arrays_ok 3 [Fin 0, Fin 1, Fin 2] [Fin 2, Fin 1, Fin 0] [Fin 1, Fin 1, Fin 1]"
    by (simp add: arrays_ok_def)
  have p: "(1::nat) < 3" "handle_ok None"
    by (simp_all add: handle_ok_def)
  note th = finite_points_bounded_domains [where u = zero_mem and u' = zero_mem
      and x_min = "Fin 0" and x_max = "Fin 1" and y_min = "Fin 0" and y_max = "Fin 1"
      and z_min = "Fin 0" and z_max = "Fin 1",
      OF qsort_ok_insertion_sort p(1) arr p(2) old_points_finite]
  have root: "search_called old_tree ?sp (t_root old_tree) 0 initial_domain"
    and bound: "\<And>node depth domain i.
      explore_called old_tree ?sp node depth domain \<Longrightarrow> leaf_under old_tree node i \<Longrightarrow>
      point_in_search_space (t_points old_tree ! i) domain"
    using th unfolding old_build by blast+
  have e: "explore_called old_tree ?sp (Some 1) 0 (dim_max_update 0 (Fin 1) initial_domain)"
    by (rule left_of_root_called [OF root]) (simp_all add: old_tree_def)
  have l: "leaf_under old_tree (Some 1) 1"
    by (rule right_leaf_under [of 1 old_tree 3]) (simp_all add: old_tree_def is_leaf_node_def)
  show ?thesis
    using old_build e l bound [OF e l] by simp
qed

subsection \<open>The calls in the equations of the search\<close>

lemma kdtree_search_space_root:
  assumes "t_root tree = Some r" "r < length (t_node_data tree)"
    "\<not> is_leaf_node (t_node_data tree ! r)"
  shows "kdtree_search_space u (Some tree) iter_ptr x_min x_max y_min y_max z_min z_max =
     search_kdtree u tree (Some r) 0 (box x_min x_max y_min y_max z_min z_max) initial_domain
       (start_iterator u iter_ptr)"
  using assms by (simp add: kdtree_search_space_def start_iterator_def Let_def)

lemma search_kdtree_children:
  assumes "p < length (t_node_data tree)"
  shows "search_kdtree u tree (Some p) depth search_space domain iter =
     Option.bind
       (explore_branch
          (\<lambda>node depth domain iter. search_kdtree u tree node depth search_space domain iter)
          u tree (n_left (t_node_data tree ! p)) depth search_space
          (dim_max_update (depth mod NDIMS) (n_split (t_node_data tree ! p)) domain) iter)
       (\<lambda>r. case r of
          Inl e \<Rightarrow> Some (Inl e)
        | Inr iter1 \<Rightarrow>
            explore_branch
              (\<lambda>node depth domain iter. search_kdtree u tree node depth search_space domain iter)
              u tree (n_right (t_node_data tree ! p)) depth search_space
              (dim_min_update (depth mod NDIMS) (n_split (t_node_data tree ! p))
                 (dim_max_update (depth mod NDIMS) (b_max (s_dim domain ! (depth mod NDIMS)))
                    (dim_max_update (depth mod NDIMS) (n_split (t_node_data tree ! p)) domain)))
              iter1)"
  using assms by (subst search_kdtree.simps) (simp add: Let_def)

lemma explore_branch_enclosed:
  assumes "p < length (t_node_data tree)" "\<not> is_leaf_node (t_node_data tree ! p)"
    "search_area_intersects search_space domain" "completely_enclosed search_space domain"
  shows "explore_branch search u tree (Some p) depth search_space domain iter =
     report_all_leaves u tree (Some p) iter"
  using assms by (simp add: explore_branch_def)

lemma explore_branch_pruned:
  assumes "p < length (t_node_data tree)" "\<not> is_leaf_node (t_node_data tree ! p)"
    "\<not> search_area_intersects search_space domain"
  shows "explore_branch search u tree (Some p) depth search_space domain iter = Some (Inr iter)"
  using assms by (simp add: explore_branch_def)

lemma explore_branch_descends:
  assumes "p < length (t_node_data tree)" "\<not> is_leaf_node (t_node_data tree ! p)"
    "search_area_intersects search_space domain" "\<not> completely_enclosed search_space domain"
  shows "explore_branch search u tree (Some p) depth search_space domain iter =
     search (Some p) (depth + 1) domain iter"
  using assms by (simp add: explore_branch_def)

subsection \<open>A point outside the domain of its subtree\<close>

lemma inf_tree_nodes:
  "t_root inf_tree = Some 0" "length (t_node_data inf_tree) = 5"
  "\<not> is_leaf_node (t_node_data inf_tree ! 0)" "\<not> is_leaf_node (t_node_data inf_tree ! 1)"
  "n_left (t_node_data inf_tree ! 0) = Some 1" "n_right (t_node_data inf_tree ! 0) = Some 4"
  "n_split (t_node_data inf_tree ! 0) = Fin 1"
  by (simp_all add: inf_tree_def is_leaf_node_def)

lemma left_domain_bounds:
  "completely_enclosed whole_box left_domain" "search_area_intersects whole_box left_domain"
  "\<not> search_area_intersects top_box left_domain"
  by (simp_all add: completely_enclosed_def search_area_intersects_def whole_box_def top_box_def
      left_domain_def box_def dim_max_update_def initial_domain_def DBL_MAX_def)

lemma inf_left_leaves:
  "report_all_leaves zero_mem inf_tree (Some 1) iter = Some (Inr (push_all zero_mem iter [1, 0]))"
  by (simp add: inf_tree_def report_all_leaves.simps is_leaf_node_def push_all_def)

text \<open>
  Claim C4: the domain passed to a subtree bounds every point under it, so that an
  enclosed subtree reports only points inside the box and a pruned subtree holds no
  point inside the box. The code does not do so at this input. In the tree built from
  the three points \<open>(0, +\<infinity>, 0)\<close>, \<open>(1, 5, 0)\<close>, \<open>(2, 0, 0)\<close>, a search starts
  \<^verbatim>\<open>_search_kdtree\<close> on the root with \<open>initial_domain\<close>, which calls \<^verbatim>\<open>_explore_branch\<close>
  on the left child of the root (node 1) with \<open>left_domain\<close>: x up to 1, y and z from
  \<open>-DBL_MAX\<close> to \<open>DBL_MAX\<close>. The leaves under node 1 are the points of original indices 1
  and 0 (what \<^verbatim>\<open>_report_all_leaves\<close> pushes), and point 0, in slot 1 of the cache, is
  \<open>(0, +\<infinity>, 0)\<close>: not within the domain.
  \<^item> The box \<open>[-DBL_MAX, DBL_MAX]\<close> on each axis encloses the domain: node 1 is reported
    whole, with point 0, which is outside the box.
  \<^item> The box \<open>y = +\<infinity>\<close> does not intersect the domain: node 1 is pruned, with point 0,
    which is inside the box.
  The comment in \<^verbatim>\<open>kdtree_search_space\<close> says ``set initial domain to infinite space'',
  and the statements under it set \<open>[-DBL_MAX, DBL_MAX]\<close>. For finite coordinates the domains
  do bound the points (\<open>finite_points_bounded_domains\<close>).
\<close>

theorem domain_misses_infinite_point:
  "kdtree_build insertion_sort zero_mem inf_x inf_y inf_z 3 None = Inr inf_tree \<and>
   kdtree_search_space zero_mem (Some inf_tree) None
       (- DBL_MAX) DBL_MAX (- DBL_MAX) DBL_MAX (- DBL_MAX) DBL_MAX =
     search_kdtree zero_mem inf_tree (Some 0) 0 whole_box initial_domain (iterator_new zero_mem) \<and>
   search_kdtree zero_mem inf_tree (Some 0) 0 whole_box initial_domain (iterator_new zero_mem) =
     Option.bind
       (explore_branch
          (\<lambda>node depth domain iter. search_kdtree zero_mem inf_tree node depth whole_box domain iter)
          zero_mem inf_tree (Some 1) 0 whole_box left_domain (iterator_new zero_mem))
       (\<lambda>r. case r of
          Inl e \<Rightarrow> Some (Inl e)
        | Inr iter1 \<Rightarrow>
            explore_branch
              (\<lambda>node depth domain iter. search_kdtree zero_mem inf_tree node depth whole_box domain iter)
              zero_mem inf_tree (Some 4) 0 whole_box (dim_min_update 0 (Fin 1) initial_domain)
              iter1) \<and>
   report_all_leaves zero_mem inf_tree (Some 1) (iterator_new zero_mem) =
     Some (Inr (push_all zero_mem (iterator_new zero_mem) [1, 0])) \<and>
   t_points inf_tree ! 1 = \<lparr>p_x = Fin 0, p_y = PInf, p_z = Fin 0, p_idx = 0\<rparr> \<and>
   \<not> point_in_search_space (t_points inf_tree ! 1) left_domain \<and>
   completely_enclosed whole_box left_domain \<and>
   explore_branch
       (\<lambda>node depth domain iter. search_kdtree zero_mem inf_tree node depth whole_box domain iter)
       zero_mem inf_tree (Some 1) 0 whole_box left_domain (iterator_new zero_mem) =
     Some (Inr (push_all zero_mem (iterator_new zero_mem) [1, 0])) \<and>
   0 \<notin> box_indices 3 inf_x inf_y inf_z (- DBL_MAX) DBL_MAX (- DBL_MAX) DBL_MAX (- DBL_MAX) DBL_MAX \<and>
   \<not> search_area_intersects top_box left_domain \<and>
   explore_branch
       (\<lambda>node depth domain iter. search_kdtree zero_mem inf_tree node depth top_box domain iter)
       zero_mem inf_tree (Some 1) 0 top_box left_domain (iterator_new zero_mem) =
     Some (Inr (iterator_new zero_mem)) \<and>
   0 \<in> box_indices 3 inf_x inf_y inf_z MInf PInf PInf PInf MInf PInf"
proof -
  let ?it = "iterator_new zero_mem"
  let ?S = "\<lambda>sp node depth domain iter. search_kdtree zero_mem inf_tree node depth sp domain iter"
  have root: "kdtree_search_space zero_mem (Some inf_tree) None
        (- DBL_MAX) DBL_MAX (- DBL_MAX) DBL_MAX (- DBL_MAX) DBL_MAX =
      search_kdtree zero_mem inf_tree (Some 0) 0 whole_box initial_domain ?it"
    using kdtree_search_space_root [of inf_tree 0 zero_mem None] inf_tree_nodes
    by (simp add: whole_box_def start_iterator_def)
  have right: "dim_min_update 0 (Fin 1)
        (dim_max_update 0 (b_max (s_dim initial_domain ! 0)) (dim_max_update 0 (Fin 1) initial_domain)) =
      dim_min_update 0 (Fin 1) initial_domain"
    by (rule right_domain) (simp add: initial_domain_def)
  have children: "search_kdtree zero_mem inf_tree (Some 0) 0 whole_box initial_domain ?it =
      Option.bind (explore_branch (?S whole_box) zero_mem inf_tree (Some 1) 0 whole_box left_domain ?it)
        (\<lambda>r. case r of
           Inl e \<Rightarrow> Some (Inl e)
         | Inr iter1 \<Rightarrow>
             explore_branch (?S whole_box) zero_mem inf_tree (Some 4) 0 whole_box
               (dim_min_update 0 (Fin 1) initial_domain) iter1)"
    using search_kdtree_children [of 0 inf_tree zero_mem 0 whole_box initial_domain ?it]
      inf_tree_nodes right
    by (simp add: NDIMS_def left_domain_def)
  have point: "t_points inf_tree ! 1 = \<lparr>p_x = Fin 0, p_y = PInf, p_z = Fin 0, p_idx = 0\<rparr>"
    by (simp add: inf_tree_def)
  have outside: "\<not> point_in_search_space (t_points inf_tree ! 1) left_domain"
    unfolding point
    by (simp add: point_in_search_space_def left_domain_def dim_max_update_def initial_domain_def
        DBL_MAX_def)
  have reported: "explore_branch (?S whole_box) zero_mem inf_tree (Some 1) 0 whole_box left_domain ?it =
      Some (Inr (push_all zero_mem ?it [1, 0]))"
    using explore_branch_enclosed [of 1 inf_tree whole_box left_domain "?S whole_box" zero_mem 0 ?it]
      inf_tree_nodes left_domain_bounds inf_left_leaves
    by simp
  have pruned: "explore_branch (?S top_box) zero_mem inf_tree (Some 1) 0 top_box left_domain ?it =
      Some (Inr ?it)"
    using explore_branch_pruned [of 1 inf_tree top_box left_domain "?S top_box" zero_mem 0 ?it]
      inf_tree_nodes left_domain_bounds
    by simp
  have not_in: "0 \<notin> box_indices 3 inf_x inf_y inf_z
      (- DBL_MAX) DBL_MAX (- DBL_MAX) DBL_MAX (- DBL_MAX) DBL_MAX"
    by (simp add: box_indices_def inf_y_def DBL_MAX_def)
  have is_in: "0 \<in> box_indices 3 inf_x inf_y inf_z MInf PInf PInf PInf MInf PInf"
    by (simp add: box_indices_def inf_x_def inf_y_def inf_z_def)
  show ?thesis
    using inf_build root children inf_left_leaves [of ?it] point outside left_domain_bounds(1,3)
      reported pruned not_in is_in
    by (intro conjI)
qed

subsection \<open>The build in memory is the build\<close>

lemma store_point_tree:
  assumes "m a = Some (Tree_object tree)" "i < length (t_points tree)"
  shows "store_point m a i f =
     Inr (m(a \<mapsto> Tree_object (tree\<lparr>t_points := (t_points tree)[i := f (t_points tree ! i)]\<rparr>)))"
  using assms by (simp add: store_point_def load_tree_def)

lemma load_double_array:
  assumes "m xp = Some (Double_array x)" "i < length x"
  shows "load_double m xp i = Inr (x ! i)"
  using assms by (simp add: load_double_def)

lemma cache_points_mem_step:
  assumes "m xp = Some (Double_array x)" "m yp = Some (Double_array y)"
    "m zp = Some (Double_array z)" "m a = Some (Tree_object tree)"
    "i < cnt" "i < length x" "i < length y" "i < length z" "i < length (t_points tree)"
  shows "cache_points_mem xp yp zp cnt i a m =
     cache_points_mem xp yp zp cnt (i + 1) a
       (m(a \<mapsto> Tree_object (tree\<lparr>t_points :=
          (t_points tree)[i := \<lparr>p_x = x ! i, p_y = y ! i, p_z = z ! i, p_idx = i\<rparr>]\<rparr>)))"
proof -
  have ne: "xp \<noteq> a" "yp \<noteq> a" "zp \<noteq> a"
    using assms(1-4) by auto
  let ?pts = "t_points tree"
  let ?p1 = "(?pts ! i)\<lparr>p_idx := i\<rparr>"
  let ?m1 = "m(a \<mapsto> Tree_object (tree\<lparr>t_points := ?pts[i := ?p1]\<rparr>))"
  let ?p2 = "?p1\<lparr>p_x := x ! i\<rparr>"
  let ?m2 = "m(a \<mapsto> Tree_object (tree\<lparr>t_points := ?pts[i := ?p2]\<rparr>))"
  let ?p3 = "?p2\<lparr>p_y := y ! i\<rparr>"
  let ?m3 = "m(a \<mapsto> Tree_object (tree\<lparr>t_points := ?pts[i := ?p3]\<rparr>))"
  let ?p4 = "?p3\<lparr>p_z := z ! i\<rparr>"
  let ?m4 = "m(a \<mapsto> Tree_object (tree\<lparr>t_points := ?pts[i := ?p4]\<rparr>))"
  have s1: "store_point m a i (\<lambda>p. p\<lparr>p_idx := i\<rparr>) = Inr ?m1"
    using assms(4,9) by (simp add: store_point_tree)
  have l1: "load_double ?m1 xp i = Inr (x ! i)"
    using assms(1,6) ne by (simp add: load_double_def)
  have s2: "store_point ?m1 a i (\<lambda>p. p\<lparr>p_x := x ! i\<rparr>) = Inr ?m2"
    using assms(9) by (simp add: store_point_def load_tree_def)
  have l2: "load_double ?m2 yp i = Inr (y ! i)"
    using assms(2,7) ne by (simp add: load_double_def)
  have s3: "store_point ?m2 a i (\<lambda>p. p\<lparr>p_y := y ! i\<rparr>) = Inr ?m3"
    using assms(9) by (simp add: store_point_def load_tree_def)
  have l3: "load_double ?m3 zp i = Inr (z ! i)"
    using assms(3,8) ne by (simp add: load_double_def)
  have s4: "store_point ?m3 a i (\<lambda>p. p\<lparr>p_z := z ! i\<rparr>) = Inr ?m4"
    using assms(9) by (simp add: store_point_def load_tree_def)
  have p4: "?p4 = \<lparr>p_x = x ! i, p_y = y ! i, p_z = z ! i, p_idx = i\<rparr>"
    by simp
  have "cache_points_mem xp yp zp cnt i a m = cache_points_mem xp yp zp cnt (i + 1) a ?m4"
    using assms(5) by (subst cache_points_mem.simps) (simp only: s1 l1 s2 l2 s3 l3 s4 sum.case if_True)
  then show ?thesis
    unfolding p4 .
qed

lemma cache_points_mem_refines:
  assumes "m xp = Some (Double_array x)" "m yp = Some (Double_array y)"
    "m zp = Some (Double_array z)" "m a = Some (Tree_object tree)"
    "arrays_ok cnt x y z" "cnt \<le> length (t_points tree)"
    "cache_points x y z cnt i (t_points tree) = Inr points"
  shows "cache_points_mem xp yp zp cnt i a m = Inr (m(a \<mapsto> Tree_object (tree\<lparr>t_points := points\<rparr>)))"
  using assms
proof (induction "cnt - i" arbitrary: i m tree)
  case 0
  then have "\<not> i < cnt" by simp
  then have "cache_points_mem xp yp zp cnt i a m = Inr m" "points = t_points tree"
    using "0.prems"(7) by (simp_all add: cache_points_mem.simps cache_points.simps)
  moreover have "m(a \<mapsto> Tree_object (tree\<lparr>t_points := t_points tree\<rparr>)) = m"
    using "0.prems"(4) by (simp add: fun_upd_idem)
  ultimately show ?case by simp
next
  case (Suc n)
  let ?p = "\<lparr>p_x = x ! i, p_y = y ! i, p_z = z ! i, p_idx = i\<rparr>"
  let ?tree = "tree\<lparr>t_points := (t_points tree)[i := ?p]\<rparr>"
  let ?m = "m(a \<mapsto> Tree_object ?tree)"
  have i: "i < cnt" using Suc.hyps(2) by simp
  have inb: "i < length x" "i < length y" "i < length z" "i < length (t_points tree)"
    using i Suc.prems(5,6) by (simp_all add: arrays_ok_def)
  have ne: "xp \<noteq> a" "yp \<noteq> a" "zp \<noteq> a"
    using Suc.prems(1-4) by auto
  have step: "cache_points_mem xp yp zp cnt i a m = cache_points_mem xp yp zp cnt (i + 1) a ?m"
    using cache_points_mem_step [OF Suc.prems(1-4) i inb] .
  have next_points: "cache_points x y z cnt (i + 1) (t_points ?tree) = Inr points"
    using Suc.prems(7) i inb by (subst (asm) cache_points.simps) simp
  have "cache_points_mem xp yp zp cnt (i + 1) a ?m =
      Inr (?m(a \<mapsto> Tree_object (?tree\<lparr>t_points := points\<rparr>)))"
  proof (rule Suc.hyps(1))
    show "n = cnt - (i + 1)" using Suc.hyps(2) by simp
    show "?m xp = Some (Double_array x)" "?m yp = Some (Double_array y)"
      "?m zp = Some (Double_array z)"
      using Suc.prems(1-3) ne by simp_all
    show "?m a = Some (Tree_object ?tree)" by simp
    show "arrays_ok cnt x y z" by (rule Suc.prems(5))
    show "cnt \<le> length (t_points ?tree)" using Suc.prems(6) by simp
    show "cache_points x y z cnt (i + 1) (t_points ?tree) = Inr points" by (rule next_points)
  qed
  then show ?case
    unfolding step by simp
qed

lemma handle_tree_ok: "mem_handle_ok m tree_ptr \<Longrightarrow> handle_ok (handle_tree m tree_ptr)"
  by (auto simp: mem_handle_ok_def handle_ok_def handle_tree_def split: option.splits object.splits)

lemma kdtree_build_start:
  assumes "mem_handle_ok m tree_ptr"
  shows "(case tree_ptr of
            None \<Rightarrow> Inr (fresh, m(fresh \<mapsto> Tree_object (new_tree u cnt)))
          | Some a0 \<Rightarrow>
              (case load_tree m a0 of
                 Inl e \<Rightarrow> Inl e
               | Inr tree0 \<Rightarrow>
                   if t_count tree0 \<noteq> cnt
                   then Inr (fresh, (m(a0 := None))(fresh \<mapsto> Tree_object (new_tree u cnt)))
                   else Inr (a0, m))) =
         Inr (built_address m fresh cnt tree_ptr,
              (memory_after_delete m cnt tree_ptr)(built_address m fresh cnt tree_ptr \<mapsto>
                 Tree_object (start_tree u cnt (handle_tree m tree_ptr))))"
proof (cases tree_ptr)
  case None
  then show ?thesis
    by (simp add: built_address_def memory_after_delete_def start_tree_def handle_tree_def)
next
  case (Some a0)
  then obtain tree0 where t0: "m a0 = Some (Tree_object tree0)"
    using assms by (auto simp: mem_handle_ok_def split: option.splits object.splits)
  show ?thesis
  proof (cases "t_count tree0 = cnt")
    case True
    have "m(a0 \<mapsto> Tree_object tree0) = m"
      using t0 by (simp add: fun_upd_idem)
    then show ?thesis
      using Some t0 True
      by (simp add: built_address_def memory_after_delete_def start_tree_def handle_tree_def
          load_tree_def)
  next
    case False
    then show ?thesis
      using Some t0
      by (simp add: built_address_def memory_after_delete_def start_tree_def handle_tree_def
          load_tree_def)
  qed
qed

lemma arrays_after_delete:
  assumes "m xp = Some (Double_array x)"
  shows "memory_after_delete m cnt tree_ptr xp = Some (Double_array x)"
  using assms
  by (auto simp: memory_after_delete_def split: option.splits object.splits)

lemma built_address_not_array:
  assumes "m xp = Some (Double_array x)" "m fresh = None \<or> tree_ptr = Some fresh"
    "mem_handle_ok m tree_ptr"
  shows "xp \<noteq> built_address m fresh cnt tree_ptr"
  using assms
  by (auto simp: built_address_def mem_handle_ok_def split: option.splits object.splits)

lemma kdtree_build_mem_refines:
  assumes "1 < cnt" "arrays_ok cnt x y z"
    "m xp = Some (Double_array x)" "m yp = Some (Double_array y)" "m zp = Some (Double_array z)"
    "mem_handle_ok m tree_ptr" "m fresh = None \<or> tree_ptr = Some fresh"
  shows "kdtree_build_mem qs u fresh xp yp zp cnt tree_ptr m =
     (case kdtree_build qs u x y z cnt (handle_tree m tree_ptr) of
        Inl e \<Rightarrow> Inl e
      | Inr tree \<Rightarrow>
          Inr (Some (built_address m fresh cnt tree_ptr),
               (memory_after_delete m cnt tree_ptr)(built_address m fresh cnt tree_ptr \<mapsto>
                  Tree_object tree)))"
proof -
  let ?a = "built_address m fresh cnt tree_ptr"
  let ?m0 = "memory_after_delete m cnt tree_ptr"
  let ?s = "start_tree u cnt (handle_tree m tree_ptr)"
  let ?s1 = "?s\<lparr>t_next_node := 0\<rparr>"
  let ?m1 = "?m0(?a \<mapsto> Tree_object ?s)"
  let ?m1' = "?m1(?a \<mapsto> Tree_object ?s1)"
  let ?s2 = "?s1\<lparr>t_points := cached_points x y z cnt\<rparr>"
  let ?m2 = "?m1'(?a \<mapsto> Tree_object ?s2)"
  have al: "allocated ?s" "t_count ?s = cnt"
    using start_tree_allocated [OF handle_tree_ok [OF assms(6)]] by blast+
  have ne: "xp \<noteq> ?a" "yp \<noteq> ?a" "zp \<noteq> ?a"
    using assms(3-7) by (simp_all add: built_address_not_array)
  have arr: "?m1' xp = Some (Double_array x)" "?m1' yp = Some (Double_array y)"
    "?m1' zp = Some (Double_array z)"
    using ne assms(3-5) by (simp_all add: arrays_after_delete)
  have cache: "cache_points x y z cnt 0 (t_points ?s1) = Inr (cached_points x y z cnt)"
    using al assms(2) by (intro cache_points_all) (simp add: allocated_def)
  have mem: "cache_points_mem xp yp zp cnt 0 ?a ?m1' = Inr ?m2"
  proof (rule cache_points_mem_refines [OF arr _ assms(2) _ cache])
    show "?m1' ?a = Some (Tree_object ?s1)" by simp
    show "cnt \<le> length (t_points ?s1)" using al by (simp add: allocated_def)
  qed
  have l1: "load_tree ?m1 ?a = Inr ?s" and l2: "load_tree ?m2 ?a = Inr ?s2"
    by (simp_all add: load_tree_def)
  have m2: "?m2(?a \<mapsto> Tree_object tree) = ?m0(?a \<mapsto> Tree_object tree)" for tree
    by simp
  have guard: "(\<not> cnt > 1) = False"
    using assms(1) by simp
  have fun_build: "kdtree_build qs u x y z cnt (handle_tree m tree_ptr) =
      (case build_kdtree qs 0 (cnt - 1) 0 ?s2 of
         Inl e \<Rightarrow> Inl e
       | Inr (node, tree3) \<Rightarrow> Inr (tree3\<lparr>t_root := Some node\<rparr>))"
    using assms(1) cache by (simp add: kdtree_build_def start_tree_def [symmetric] Let_def)
  have "kdtree_build_mem qs u fresh xp yp zp cnt tree_ptr m =
      (case build_kdtree qs 0 (cnt - 1) 0 ?s2 of
         Inl e \<Rightarrow> Inl e
       | Inr (node, tree3) \<Rightarrow>
           Inr (Some ?a, ?m2(?a \<mapsto> Tree_object (tree3\<lparr>t_root := Some node\<rparr>))))"
    unfolding kdtree_build_mem_def kdtree_build_start [OF assms(6)]
    by (simp only: guard l1 mem l2 sum.case prod.case if_False)
  then show ?thesis
    unfolding fun_build m2 by (simp split: sum.splits prod.splits)
qed

lemma build_result_points:
  assumes "build_result x y z cnt tree t"
  shows "mset (t_points tree) = mset (cached_points x y z cnt)"
proof -
  have lay: "layout (t_node_data tree) (t_points tree) 0 [0..<2 * cnt - 1] [0..<cnt] t"
    and spec: "spec_build_subtree 0 (cached_points x y z cnt) t"
    and len: "length (t_points tree) = cnt"
    using assms by (simp_all add: build_result_def)
  have "p_leaves t = map ((!) (t_points tree)) [0..<length (t_points tree)]"
    using layout_leaves [OF lay] len by simp
  then have "p_leaves t = t_points tree"
    by (simp only: map_nth)
  then show ?thesis
    using spec_leaves_mset [OF spec] by simp
qed

text \<open>
  Claim C10. The caller's arrays are at the addresses \<open>xp\<close>, \<open>yp\<close> and \<open>zp\<close> and hold
  at least \<open>cnt \<ge> 2\<close> doubles each; the handle is NULL or refers to a tree built earlier;
  \<^verbatim>\<open>malloc\<close> returns an address that is not in use (or that of the tree just freed).
  Then \<open>kdtree_build\<close> returns, and in the memory it leaves
  \<^item> the handle refers to a tree, at the address it referred to before or at the new one;
  \<^item> the arrays at \<open>xp\<close>, \<open>yp\<close> and \<open>zp\<close> are what they were, element for element;
  \<^item> so is every other object but the tree of the handle before and after the call;
  \<^item> the tree at the handle is the one \<open>kdtree_build\<close> computes from the values of the
    arrays, and its point cache is a permutation of the points \<open>(x ! i, y ! i, z ! i)\<close>
    with their indices \<open>i < cnt\<close>: the order the sorting produced is in the cache only.
\<close>

theorem build_leaves_arrays_unchanged:
  assumes "qsort_ok qs" "1 < cnt" "arrays_ok cnt x y z"
    "m xp = Some (Double_array x)" "m yp = Some (Double_array y)" "m zp = Some (Double_array z)"
    "mem_handle_ok m tree_ptr" "m fresh = None \<or> tree_ptr = Some fresh"
  shows "\<exists>a m' tree.
      kdtree_build_mem qs u fresh xp yp zp cnt tree_ptr m = Inr (Some a, m') \<and>
      (a = fresh \<or> tree_ptr = Some a) \<and>
      m' xp = Some (Double_array x) \<and> m' yp = Some (Double_array y) \<and>
      m' zp = Some (Double_array z) \<and>
      (\<forall>p. p \<noteq> a \<longrightarrow> Some p \<noteq> tree_ptr \<longrightarrow> m' p = m p) \<and>
      m' a = Some (Tree_object tree) \<and>
      kdtree_build qs u x y z cnt (handle_tree m tree_ptr) = Inr tree \<and>
      mset (t_points tree) = mset (cached_points x y z cnt)"
proof -
  let ?a = "built_address m fresh cnt tree_ptr"
  let ?m0 = "memory_after_delete m cnt tree_ptr"
  obtain tree t where run: "kdtree_build qs u x y z cnt (handle_tree m tree_ptr) = Inr tree"
    and r: "build_result x y z cnt tree t"
    using kdtree_build_result [OF assms(1-3) handle_tree_ok [OF assms(7)]] by blast
  let ?m' = "?m0(?a \<mapsto> Tree_object tree)"
  have mem: "kdtree_build_mem qs u fresh xp yp zp cnt tree_ptr m = Inr (Some ?a, ?m')"
    using kdtree_build_mem_refines [OF assms(2-8), of qs u] run by simp
  have ne: "xp \<noteq> ?a" "yp \<noteq> ?a" "zp \<noteq> ?a"
    using assms(4-8) by (simp_all add: built_address_not_array)
  have arr: "?m' xp = Some (Double_array x)" "?m' yp = Some (Double_array y)"
    "?m' zp = Some (Double_array z)"
    using ne assms(4-6) by (simp_all add: arrays_after_delete)
  have frame: "?m' p = m p" if "p \<noteq> ?a" "Some p \<noteq> tree_ptr" for p
    using that by (auto simp: memory_after_delete_def split: option.splits object.splits)
  have tree: "?m' ?a = Some (Tree_object tree)" by simp
  have addr: "?a = fresh \<or> tree_ptr = Some ?a"
    by (auto simp: built_address_def split: option.splits object.splits)
  show ?thesis
    using mem addr arr frame tree run build_result_points [OF r]
    by (intro exI [of _ ?a] exI [of _ ?m'] exI [of _ tree]) simp
qed

theorem build_leaves_arrays_unchanged_witness:
  "\<exists>m'. kdtree_build_mem insertion_sort zero_mem 0 1 2 3 3 None example_memory =
           Inr (Some 0, m') \<and>
         m' 1 = Some (Double_array [Fin 0, Fin 1, Fin 2]) \<and>
         m' 2 = Some (Double_array [Fin 2, Fin 1, Fin 0]) \<and>
         m' 3 = Some (Double_array [Fin 1, Fin 1, Fin 1]) \<and>
         m' 0 = Some (Tree_object old_tree)"
proof -
  have arr: "arrays_ok 3 [Fin 0, Fin 1, Fin 2] [Fin 2, Fin 1, Fin 0] [Fin 1, Fin 1, Fin 1]"
    by (simp add: arrays_ok_def)
  have m: "example_memory 1 = Some (Double_array [Fin 0, Fin 1, Fin 2])"
    "example_memory 2 = Some (Double_array [Fin 2, Fin 1, Fin 0])"
    "example_memory 3 = Some (Double_array [Fin 1, Fin 1, Fin 1])"
    "mem_handle_ok example_memory None"
    "example_memory 0 = None \<or> None = Some (0::nat)"
    by (simp_all add: example_memory_def mem_handle_ok_def)
  have p: "(1::nat) < 3" by simp
  have h: "handle_tree example_memory None = None"
    by (simp add: handle_tree_def)
  note th = build_leaves_arrays_unchanged [where u = zero_mem,
      OF qsort_ok_insertion_sort p arr m]
  show ?thesis
    using th unfolding h old_build by auto
qed

end
